theory Spec2Isabelle
  imports Main "HOL-Library.Monad_Syntax" "HOL-Library.AList"
begin

section \<open>Strings and numbers of the source language\<close>

text \<open>
  The program is TypeScript. A string is a sequence of UTF-16 code units and is modelled
  as a list of natural numbers (the code units); the texts the parser looks for contain
  Chinese characters, which are written here by their code points. A number that holds
  an integer is modelled as a mathematical integer (the arithmetic of the source is exact
  on integers up to \<open>2^53\<close>). Where the source reads a number from digits (\<open>parseInt\<close>) and
  where it counts through the periods (\<open>i++\<close>), the model follows the arithmetic of the
  source's numbers, which are IEEE doubles: a value beyond \<open>2^53\<close> is rounded to the nearest
  double, and \<open>2^1024\<close> stands for \<open>Infinity\<close>, the result of rounding a value too large for
  a finite double.
\<close>

type_synonym jstring = "nat list"

definition isDigit :: "nat \<Rightarrow> bool" where
  \<comment> \<open>the regular expression class \<open>\d\<close>: the characters 0 to 9\<close>
  "isDigit c = (48 \<le> c \<and> c \<le> 57)"

definition isWhiteSpace :: "nat \<Rightarrow> bool" where
  \<comment> \<open>white space and line terminators: what \<open>trim\<close> removes and \<open>\s\<close> matches\<close>
  "isWhiteSpace c = (c \<in> {9, 10, 11, 12, 13, 32, 160, 5760, 8232, 8233, 8239, 8287, 12288, 65279}
      \<or> (8192 \<le> c \<and> c \<le> 8202))"

fun digitsOf :: "nat \<Rightarrow> jstring" where
  "digitsOf n = (if n < 10 then [48 + n] else digitsOf (n div 10) @ [48 + n mod 10])"

declare digitsOf.simps [simp del]

definition toString :: "int \<Rightarrow> jstring" where
  \<comment> \<open>\<open>Number.prototype.toString\<close> and template interpolation of an integer: its decimal
      digits, which are the text of the source for the integers up to \<open>2^53\<close>\<close>
  "toString i = (if i < 0 then 45 # digitsOf (nat (- i)) else digitsOf (nat i))"

definition digitsValue :: "jstring \<Rightarrow> int" where
  \<comment> \<open>the number a string of decimal digits denotes\<close>
  "digitsValue ds = foldl (\<lambda>acc c. acc * 10 + (int c - 48)) 0 ds"

fun bitLength :: "nat \<Rightarrow> nat" where
  \<comment> \<open>the number of binary digits of a natural number\<close>
  "bitLength n = (if n = 0 then 0 else Suc (bitLength (n div 2)))"

declare bitLength.simps [simp del]

definition numberValue :: "nat \<Rightarrow> nat" where
  \<comment> \<open>The Number value of a natural number: the number itself up to \<open>2^53\<close>; beyond, the
      nearest number with 53 significant binary digits, the one with an even last digit
      where two are equally near; \<open>2^1024\<close> (for \<open>Infinity\<close>) where that reaches \<open>2^1024\<close>.\<close>
  "numberValue n =
     (if n \<le> 2 ^ 53 then n
      else
        let s = bitLength n - 53;
            q = n div 2 ^ s;
            r = n mod 2 ^ s;
            q1 = (if r > 2 ^ (s - 1) \<or> (r = 2 ^ (s - 1) \<and> odd q) then q + 1 else q)
        in if q1 * 2 ^ s \<ge> 2 ^ 1024 then 2 ^ 1024 else q1 * 2 ^ s)"

definition roundNumber :: "int \<Rightarrow> int" where
  \<comment> \<open>the Number value of an integer: the result of an arithmetic operation of the source
      whose exact result is that integer\<close>
  "roundNumber i = (if i < 0 then - int (numberValue (nat (- i))) else int (numberValue (nat i)))"

definition parseInt :: "jstring \<Rightarrow> int" where
  \<comment> \<open>\<open>parseInt\<close> reads the leading decimal digits and returns the Number value of the integer
      they denote. It is applied to strings that start with a digit only (captures of
      \<open>\d+\<close>, or after a test for a leading digit), where the source's result is a number and
      not \<open>NaN\<close>. (For more than 20 significant digits the language lets an implementation
      read the digits after the 20th as 0; the model reads the digits as they are written.)\<close>
  "parseInt s = int (numberValue (nat (digitsValue (takeWhile isDigit s))))"

definition trim :: "jstring \<Rightarrow> jstring" where
  "trim s = rev (dropWhile isWhiteSpace (rev (dropWhile isWhiteSpace s)))"

fun isPrefixOf :: "jstring \<Rightarrow> jstring \<Rightarrow> bool" where
  "isPrefixOf [] s = True"
| "isPrefixOf (p # ps) [] = False"
| "isPrefixOf (p # ps) (c # cs) = (p = c \<and> isPrefixOf ps cs)"

fun replaceFirst :: "jstring \<Rightarrow> jstring \<Rightarrow> jstring" where
  \<comment> \<open>\<open>s.replace(pat, '')\<close> with a string pattern: the first occurrence is removed\<close>
  "replaceFirst pat [] = []"
| "replaceFirst pat (c # cs) =
     (if isPrefixOf pat (c # cs) then drop (length pat) (c # cs) else c # replaceFirst pat cs)"

fun join :: "jstring \<Rightarrow> jstring list \<Rightarrow> jstring" where
  \<comment> \<open>\<open>Array.prototype.join\<close>\<close>
  "join sep [] = []"
| "join sep [x] = x"
| "join sep (x # y # ys) = x @ sep @ join sep (y # ys)"

fun splitOn :: "nat \<Rightarrow> jstring \<Rightarrow> jstring list" where
  \<comment> \<open>\<open>String.prototype.split\<close> with a separator of one character\<close>
  "splitOn c [] = [[]]"
| "splitOn c (x # xs) =
     (if x = c then [] # splitOn c xs
      else (case splitOn c xs of [] \<Rightarrow> [[x]] | p # ps \<Rightarrow> (x # p) # ps))"

definition truthyString :: "jstring option \<Rightarrow> bool" where
  \<comment> \<open>an optional string in a condition: \<open>undefined\<close> and the empty string are falsy\<close>
  "truthyString s = (case s of None \<Rightarrow> False | Some t \<Rightarrow> t \<noteq> [])"

definition truthyNumber :: "int option \<Rightarrow> bool" where
  \<comment> \<open>an optional number in a condition: \<open>undefined\<close> and 0 are falsy\<close>
  "truthyNumber n = (case n of None \<Rightarrow> False | Some k \<Rightarrow> k \<noteq> 0)"

section \<open>Data model\<close>

datatype error = TypeError | RangeError
  \<comment> \<open>the exceptions the modelled functions can raise: a \<open>TypeError\<close> where a method is called
      on \<open>undefined\<close>, a \<open>RangeError\<close> where an array would grow beyond its largest length\<close>

record WeekRange =
  start :: int
  end' :: int

record FixedTimeSlot =
  dayOfWeek :: int
  timeSlotIds :: "jstring list option"
    \<comment> \<open>\<open>None\<close>: the field is missing or not an array, which the scheduler checks for\<close>
  weeks :: "WeekRange list option"
  location :: "jstring option"

section \<open>Week ranges\<close>

definition isWeekInRanges :: "int \<Rightarrow> WeekRange list option \<Rightarrow> bool" where
  "isWeekInRanges week ranges =
     (case ranges of
        None \<Rightarrow> True
      | Some rs \<Rightarrow> if length rs = 0 then True
                  else list_ex (\<lambda>rng. week \<ge> start rng \<and> week \<le> end' rng) rs)"

fun mergeLoop :: "WeekRange list \<Rightarrow> WeekRange list \<Rightarrow> WeekRange list" where
  \<comment> \<open>the loop of \<open>mergeWeekRanges\<close>; the first argument is the array \<open>merged\<close>\<close>
  "mergeLoop merged [] = merged"
| "mergeLoop merged (rng # rest) =
     (if length merged = 0 then mergeLoop (merged @ [rng]) rest
      else
        let lst = last merged in
        if start rng \<le> end' lst + 1
        then mergeLoop (butlast merged @ [lst\<lparr>end' := max (end' lst) (end' rng)\<rparr>]) rest
        else mergeLoop (merged @ [rng]) rest)"

definition mergeWeekRanges :: "WeekRange list \<Rightarrow> WeekRange list" where
  \<comment> \<open>\<open>sort\<close> with the comparator \<open>a.start - b.start\<close> is a stable ascending sort\<close>
  "mergeWeekRanges weekRanges =
     (if length weekRanges = 0 then [] else mergeLoop [] (sort_key start weekRanges))"

definition weeksOf :: "WeekRange list \<Rightarrow> int set" where
  \<comment> \<open>the set of weeks a list of ranges denotes\<close>
  "weeksOf rs = (\<Union>r \<in> set rs. {start r .. end' r})"

definition gap :: "WeekRange \<Rightarrow> WeekRange \<Rightarrow> bool" where
  \<comment> \<open>the first range ends before the second starts, with at least one week between\<close>
  "gap a b = (end' a + 1 < start b)"

text \<open>
  The week-range merge as the specification words it: walk the sorted ranges with a current
  open range; a next range that starts at most one week after the current one ends extends
  it, any other closes it and opens a new one.
\<close>

fun coalesce :: "WeekRange \<Rightarrow> WeekRange list \<Rightarrow> WeekRange list" where
  "coalesce cur [] = [cur]"
| "coalesce cur (nxt # rest) =
     (if start nxt \<le> end' cur + 1
      then coalesce (cur\<lparr>end' := max (end' cur) (end' nxt)\<rparr>) rest
      else cur # coalesce nxt rest)"

definition mergeSpec :: "WeekRange list \<Rightarrow> WeekRange list" where
  "mergeSpec xs = (case sort_key start xs of [] \<Rightarrow> [] | r # rs \<Rightarrow> coalesce r rs)"

section \<open>Regular expressions of the parser\<close>

text \<open>
  Each regular expression of the source is a matcher: a function that tries the expression
  at the start of a string and returns the captured groups with the rest of the string
  after the match. The expressions of the source never need to give characters back: after
  a greedy \<open>\d+\<close>, \<open>\s*\<close> or \<open>[^)]+\<close> the next character is outside the class, and what the
  expression asks for next is outside the class too, so a shorter run cannot match where
  the longest one does not. An optional group is tried first with the group and then
  without it.
\<close>

definition matchChar :: "nat \<Rightarrow> jstring \<Rightarrow> jstring option" where
  "matchChar c s = (case s of [] \<Rightarrow> None | x # xs \<Rightarrow> if x = c then Some xs else None)"

definition matchClass :: "(nat \<Rightarrow> bool) \<Rightarrow> jstring \<Rightarrow> (nat \<times> jstring) option" where
  "matchClass p s = (case s of [] \<Rightarrow> None | x # xs \<Rightarrow> if p x then Some (x, xs) else None)"

definition matchDigits :: "jstring \<Rightarrow> (jstring \<times> jstring) option" where
  \<comment> \<open>\<open>\d+\<close>\<close>
  "matchDigits s =
     (let ds = takeWhile isDigit s in if ds = [] then None else Some (ds, dropWhile isDigit s))"

definition orElse :: "'a option \<Rightarrow> 'a option \<Rightarrow> 'a option" where
  "orElse a b = (case a of Some x \<Rightarrow> Some x | None \<Rightarrow> b)"

fun searchFrom :: "(jstring \<Rightarrow> 'a option) \<Rightarrow> jstring \<Rightarrow> (jstring \<times> 'a) option" where
  \<comment> \<open>the first match of an expression that is not anchored: the leftmost position where the
      matcher succeeds, with the text before it\<close>
  "searchFrom m [] = map_option (\<lambda>r. ([], r)) (m [])"
| "searchFrom m (c # cs) =
     (case m (c # cs) of
        Some r \<Rightarrow> Some ([], r)
      | None \<Rightarrow> map_option (\<lambda>(pre, r). (c # pre, r)) (searchFrom m cs))"

definition matchPeriod :: "jstring \<Rightarrow> ((jstring \<times> jstring option) \<times> jstring) option" where
  \<comment> \<open>\<open>/D(\d+)(?:-(\d+))?J/\<close> with \<open>D\<close> the character 31532 and \<open>J\<close> the character 33410
      (the two characters around a period range); the result holds the two groups\<close>
  "matchPeriod s =
     do {
       s1 \<leftarrow> matchChar 31532 s;
       (g1, s2) \<leftarrow> matchDigits s1;
       orElse
         (do {
            s3 \<leftarrow> matchChar 45 s2;
            (g2, s4) \<leftarrow> matchDigits s3;
            s5 \<leftarrow> matchChar 33410 s4;
            Some ((g1, Some g2), s5)
          })
         (do {
            s5 \<leftarrow> matchChar 33410 s2;
            Some ((g1, None), s5)
          })
     }"

definition matchWeek :: "jstring \<Rightarrow> ((jstring \<times> jstring option) \<times> jstring) option" where
  \<comment> \<open>\<open>/(\d+)(?:-(\d+))?W?/\<close> with \<open>W\<close> the character 21608 (the week character)\<close>
  "matchWeek s =
     do {
       (g1, s1) \<leftarrow> matchDigits s;
       (g2, s2) \<leftarrow>
         orElse
           (do {
              s3 \<leftarrow> matchChar 45 s1;
              (d2, s4) \<leftarrow> matchDigits s3;
              Some (Some d2, s4)
            })
           (Some (None, s1));
       Some ((g1, g2), (case matchChar 21608 s2 of Some s5 \<Rightarrow> s5 | None \<Rightarrow> s2))
     }"

definition matchWeekPrefix :: "jstring \<Rightarrow> (jstring \<times> jstring) option" where
  \<comment> \<open>\<open>/^(\d+(?:-\d+)?W?)[C,]/\<close> with \<open>C\<close> the full-width comma 65292, tried at the start
      of the line only; the result is group 1 and the whole match\<close>
  "matchWeekPrefix s =
     do {
       (gs, s1) \<leftarrow> matchWeek s;
       (c, s2) \<leftarrow> matchClass (\<lambda>c. c = 65292 \<or> c = 44) s1;
       Some (take (length s - length s1) s, take (length s - length s2) s)
     }"

definition matchLocation :: "jstring \<Rightarrow> (jstring \<times> jstring) option" where
  \<comment> \<open>\<open>/\(([^)]+)\)/\<close>; the result is group 1 and the rest of the string\<close>
  "matchLocation s =
     do {
       s1 \<leftarrow> matchChar 40 s;
       let body = takeWhile (\<lambda>c. c \<noteq> 41) s1;
       if body = [] then None
       else do {
         s2 \<leftarrow> matchChar 41 (dropWhile (\<lambda>c. c \<noteq> 41) s1);
         Some (body, s2)
       }
     }"

definition isDayChar :: "nat \<Rightarrow> bool" where
  \<comment> \<open>the class of the seven weekday characters\<close>
  "isDayChar c = (c \<in> {19968, 20108, 19977, 22235, 20116, 20845, 26085})"

definition matchDay :: "jstring \<Rightarrow> (jstring \<times> jstring) option" where
  \<comment> \<open>the weekday token: 26143 26399 and a weekday character, or 21608 and a weekday
      character\<close>
  "matchDay s =
     orElse
       (do {
          s1 \<leftarrow> matchChar 26143 s;
          s2 \<leftarrow> matchChar 26399 s1;
          (d, s3) \<leftarrow> matchClass isDayChar s2;
          Some ([26143, 26399, d], s3)
        })
       (do {
          s1 \<leftarrow> matchChar 21608 s;
          (d, s2) \<leftarrow> matchClass isDayChar s1;
          Some ([21608, d], s2)
        })"

definition matchTime :: "jstring \<Rightarrow> (jstring \<times> jstring) option" where
  \<comment> \<open>a weekday token, \<open>\s*\<close> and a period range; the result is the matched text and the
      rest of the string\<close>
  "matchTime s =
     do {
       (tok, s1) \<leftarrow> matchDay s;
       (gs, s2) \<leftarrow> matchPeriod (dropWhile isWhiteSpace s1);
       Some (take (length s - length s2) s, s2)
     }"

fun matchAllTime :: "jstring \<Rightarrow> jstring list" where
  \<comment> \<open>the loop \<open>while ((match = regex.exec(timeContent)) !== null)\<close> of a global expression:
      the matched texts from left to right, each search starting where the last match ended
      (a match is never empty, so that is \<open>length full - 1\<close> characters after the first)\<close>
  "matchAllTime [] = []"
| "matchAllTime (c # cs) =
     (case matchTime (c # cs) of
        Some (full, rest) \<Rightarrow> full # matchAllTime (drop (length full - 1) cs)
      | None \<Rightarrow> matchAllTime cs)"

section \<open>The course time parser\<close>

definition DAY_MAP :: "(jstring \<times> int) list" where
  "DAY_MAP =
     [([26143, 26399, 19968], 1), ([26143, 26399, 20108], 2), ([26143, 26399, 19977], 3),
      ([26143, 26399, 22235], 4), ([26143, 26399, 20116], 5), ([26143, 26399, 20845], 6),
      ([26143, 26399, 26085], 7),
      ([21608, 19968], 1), ([21608, 20108], 2), ([21608, 19977], 3), ([21608, 22235], 4),
      ([21608, 20116], 5), ([21608, 20845], 6), ([21608, 26085], 7),
      ([19968], 1), ([20108], 2), ([19977], 3), ([22235], 4), ([20116], 5), ([20845], 6),
      ([26085], 7)]"

definition parseWeekRange :: "jstring \<Rightarrow> WeekRange option" where
  "parseWeekRange weekStr =
     (case searchFrom matchWeek weekStr of
        None \<Rightarrow> None
      | Some (pre, ((g1, g2), rest)) \<Rightarrow>
          let st = parseInt g1;
              en = (case g2 of Some d \<Rightarrow> parseInt d | None \<Rightarrow> st)
          in Some \<lparr>start = st, end' = en\<rparr>)"

function slotsLoop :: "jstring list \<Rightarrow> int \<Rightarrow> int \<Rightarrow> error + jstring list" where
  \<comment> \<open>\<open>for (let i = start; i <= end; i++) slots.push(i.toString())\<close>, from the state \<open>slots\<close>
      and \<open>i\<close>. The increment is an addition of doubles, so \<open>i\<close> stays where \<open>i + 1\<close> rounds to
      \<open>i\<close>. An array holds at most \<open>2^32 - 1 = 4294967295\<close> elements: the \<open>push\<close> that would make
      it longer raises a \<open>RangeError\<close>.\<close>
  "slotsLoop slots i en =
     (if i \<le> en then
        (if length slots \<ge> 4294967295 then Inl RangeError
         else slotsLoop (slots @ [toString i]) (roundNumber (i + 1)) en)
      else Inr slots)"
  by pat_completeness auto
termination
  by (relation "measure (\<lambda>(slots, i, en). 4294967295 - length slots)") auto

declare slotsLoop.simps [simp del]

definition parseTimeSlots :: "jstring \<Rightarrow> error + jstring list" where
  "parseTimeSlots timeStr =
     (case searchFrom matchPeriod timeStr of
        None \<Rightarrow> Inr []
      | Some (pre, ((g1, g2), rest)) \<Rightarrow>
          let st = parseInt g1;
              en = (case g2 of Some d \<Rightarrow> parseInt d | None \<Rightarrow> st)
          in slotsLoop [] st en)"

definition parseLocation :: "jstring \<Rightarrow> jstring option" where
  "parseLocation text = map_option (\<lambda>(pre, (body, rest)). body) (searchFrom matchLocation text)"

definition removeLocation :: "jstring \<Rightarrow> jstring" where
  \<comment> \<open>\<open>timeContent.replace(/\([^)]+\)/, '')\<close>: the first match is removed\<close>
  "removeLocation s =
     (case searchFrom matchLocation s of
        None \<Rightarrow> s
      | Some (pre, (body, rest)) \<Rightarrow> pre @ rest)"

definition parseDay :: "jstring \<Rightarrow> int option" where
  \<comment> \<open>\<open>DAY_MAP[dayStr] || null\<close>: no value of the table is 0, so \<open>null\<close> stands for a missing
      key\<close>
  "parseDay dayStr = map_of DAY_MAP dayStr"

record ParsedLine =
  line_weeks :: "WeekRange option"
  line_timeSlots :: "FixedTimeSlot list"
  line_location :: "jstring option"

definition slotOfMatch ::
  "WeekRange option \<Rightarrow> jstring option \<Rightarrow> jstring \<Rightarrow> error + FixedTimeSlot list" where
  \<comment> \<open>the body of the loop over the matches: the slot pushed for one match, or nothing where
      the body reaches \<open>continue\<close>; an exception of \<open>parseTimeSlots\<close> leaves the body\<close>
  "slotOfMatch wk loc fullMatch =
     (case searchFrom matchDay fullMatch of
        None \<Rightarrow> Inr []
      | Some (pre, (tok, rest)) \<Rightarrow>
          (case parseDay tok of
             None \<Rightarrow> Inr []
           | Some d \<Rightarrow>
               if d = 0 then Inr []
               else
                 (case parseTimeSlots fullMatch of
                    Inl e \<Rightarrow> Inl e
                  | Inr ids \<Rightarrow>
                      if length ids = 0 then Inr []
                      else Inr [\<lparr>dayOfWeek = d, timeSlotIds = Some ids,
                                 weeks = (case wk of Some w \<Rightarrow> Some [w] | None \<Rightarrow> None),
                                 location = loc\<rparr>])))"

fun slotsOfMatches ::
  "WeekRange option \<Rightarrow> jstring option \<Rightarrow> jstring list \<Rightarrow> error + FixedTimeSlot list" where
  \<comment> \<open>the loop over the matches, in order: the slots pushed to \<open>timeSlots\<close>, or the first
      exception\<close>
  "slotsOfMatches wk loc [] = Inr []"
| "slotsOfMatches wk loc (m # ms) =
     (case slotOfMatch wk loc m of
        Inl e \<Rightarrow> Inl e
      | Inr new \<Rightarrow>
          (case slotsOfMatches wk loc ms of
             Inl e \<Rightarrow> Inl e
           | Inr later \<Rightarrow> Inr (new @ later)))"

definition parseTimeLine :: "jstring \<Rightarrow> error + ParsedLine" where
  "parseTimeLine line =
     (let trimmedLine = trim line;
          weekMatch = matchWeekPrefix trimmedLine;
          wk = (case weekMatch of Some (g1, whole) \<Rightarrow> parseWeekRange g1 | None \<Rightarrow> None);
          loc = parseLocation trimmedLine;
          timeContent1 = (case weekMatch of
                            Some (g1, whole) \<Rightarrow> replaceFirst whole trimmedLine
                          | None \<Rightarrow> trimmedLine);
          timeContent2 = (if truthyString loc then removeLocation timeContent1 else timeContent1);
          timeContent = trim timeContent2
      in case slotsOfMatches wk loc (matchAllTime timeContent) of
           Inl e \<Rightarrow> Inl e
         | Inr slots \<Rightarrow> Inr \<lparr>line_weeks = wk, line_timeSlots = slots, line_location = loc\<rparr>)"

section \<open>Deduplication of time slots\<close>

definition slotKey :: "FixedTimeSlot \<Rightarrow> jstring option" where
  \<comment> \<open>the key \<open>`${slot.dayOfWeek}-${slot.timeSlotIds.join(',')}-${slot.location || ''}`\<close>;
      \<open>None\<close> where \<open>timeSlotIds\<close> is missing and \<open>join\<close> raises\<close>
  "slotKey slot =
     (case timeSlotIds slot of
        None \<Rightarrow> None
      | Some ids \<Rightarrow>
          Some (toString (dayOfWeek slot) @ [45] @ join [44] ids @ [45] @
                (case location slot of None \<Rightarrow> [] | Some l \<Rightarrow> l)))"

definition combineWeeks ::
  "WeekRange list option \<Rightarrow> WeekRange list option \<Rightarrow> WeekRange list option" where
  \<comment> \<open>the weeks of \<open>existingSlot\<close> after a further slot with the same key\<close>
  "combineWeeks existing new =
     (case new of
        None \<Rightarrow> existing
      | Some nw \<Rightarrow>
          if length nw > 0 then
            (case existing of
               None \<Rightarrow> Some nw
             | Some ew \<Rightarrow> if length ew > 0 then Some (mergeWeekRanges (ew @ nw)) else Some nw)
          else existing)"

fun dedupLoop ::
  "(jstring \<times> FixedTimeSlot) list \<Rightarrow> FixedTimeSlot list \<Rightarrow> error + (jstring \<times> FixedTimeSlot) list"
  where
  \<comment> \<open>the loop over the slots; the first argument is \<open>slotMap\<close>, a map that keeps the order
      in which its keys were first set\<close>
  "dedupLoop slotMap [] = Inr slotMap"
| "dedupLoop slotMap (slot # rest) =
     (case slotKey slot of
        None \<Rightarrow> Inl TypeError
      | Some key \<Rightarrow>
          (case map_of slotMap key of
             Some existingSlot \<Rightarrow>
               dedupLoop
                 (AList.update key
                    (existingSlot\<lparr>weeks := combineWeeks (weeks existingSlot) (weeks slot)\<rparr>) slotMap)
                 rest
           | None \<Rightarrow> dedupLoop (AList.update key slot slotMap) rest))"

definition deduplicateTimeSlots :: "FixedTimeSlot list \<Rightarrow> error + FixedTimeSlot list" where
  "deduplicateTimeSlots timeSlots =
     (case dedupLoop [] timeSlots of Inl e \<Rightarrow> Inl e | Inr slotMap \<Rightarrow> Inr (map snd slotMap))"

section \<open>The scheduling algorithm\<close>

text \<open>
  The class \<open>SchedulingAlgorithm\<close> holds the courses, the teachers (which it never reads)
  and the time slots, sorted by their order when the object is built. Its methods are
  functions of those fields and of the options. Every schedule item is a new object; where
  the source compares objects (\<open>includes\<close>), an item is identified by its position in the
  generated schedule.
\<close>

record TimeSlot =
  ts_id :: jstring
  ts_name :: jstring
  ts_order :: int

record Course =
  course_id :: jstring
  course_name :: jstring
  course_teacherId :: jstring
  fixedTimeSlots :: "FixedTimeSlot list option"
    \<comment> \<open>\<open>None\<close>: the field is missing or not an array, which the scheduler checks for\<close>
  course_location :: "jstring option"

record ScheduleItem =
  item_id :: jstring
  courseId :: jstring
  teacherId :: jstring
  timeSlotId :: jstring
  item_dayOfWeek :: int
  item_weeks :: "WeekRange list option"
  item_location :: "jstring option"

type_synonym ItemRef = "nat \<times> ScheduleItem"

record Conflict =
  conflict_type :: jstring
  conflict_message :: jstring
  conflict_items :: "ItemRef list"

record SchedulingOptions =
  selectedWeek :: "int option"
  weekRange :: "WeekRange option"

record SchedulingResult =
  schedule :: "ScheduleItem list"
  conflicts :: "Conflict list"
  success :: bool
  message :: jstring

definition noOptions :: SchedulingOptions where
  \<comment> \<open>the default parameter \<open>options = {}\<close>\<close>
  "noOptions = \<lparr>selectedWeek = None, weekRange = None\<rparr>"

definition getWeekSuffix :: "WeekRange list option \<Rightarrow> SchedulingOptions \<Rightarrow> jstring" where
  "getWeekSuffix wks options =
     (if truthyNumber (selectedWeek options)
      then (case selectedWeek options of Some w \<Rightarrow> [119] @ toString w | None \<Rightarrow> [])
      else
        (case wks of
           Some (w0 # ws) \<Rightarrow> [119] @ toString (start w0) @ [45] @ toString (end' w0)
         | _ \<Rightarrow> [97, 108, 108]))"

definition hasWeekRangeOverlap :: "WeekRange list \<Rightarrow> WeekRange \<Rightarrow> bool" where
  "hasWeekRangeOverlap timeSlotWeeks targetRange =
     list_ex (\<lambda>rng. start rng \<le> end' targetRange \<and> end' rng \<ge> start targetRange) timeSlotWeeks"

definition slotSkipped :: "FixedTimeSlot \<Rightarrow> SchedulingOptions \<Rightarrow> bool" where
  \<comment> \<open>the week filter of \<open>scheduleForCourse\<close>: whether the loop reaches \<open>continue\<close>\<close>
  "slotSkipped fixedSlot options =
     (if truthyNumber (selectedWeek options)
      then (case selectedWeek options of
              Some w \<Rightarrow> \<not> isWeekInRanges w (weeks fixedSlot)
            | None \<Rightarrow> False)
      else
        (case weekRange options of
           Some target \<Rightarrow>
             (case weeks fixedSlot of
                Some ws \<Rightarrow> \<not> hasWeekRangeOverlap ws target
              | None \<Rightarrow> False)
         | None \<Rightarrow> False))"

definition itemLocation :: "Course \<Rightarrow> FixedTimeSlot \<Rightarrow> jstring option" where
  \<comment> \<open>\<open>fixedSlot.location || course.location\<close>\<close>
  "itemLocation course fixedSlot =
     (if truthyString (location fixedSlot) then location fixedSlot else course_location course)"

definition makeItem :: "Course \<Rightarrow> SchedulingOptions \<Rightarrow> FixedTimeSlot \<Rightarrow> jstring \<Rightarrow> ScheduleItem" where
  "makeItem course options fixedSlot tsId =
     \<lparr>item_id = course_id course @ [45] @ toString (dayOfWeek fixedSlot) @ [45] @ tsId @ [45] @
                  getWeekSuffix (weeks fixedSlot) options,
      courseId = course_id course,
      teacherId = course_teacherId course,
      timeSlotId = tsId,
      item_dayOfWeek = dayOfWeek fixedSlot,
      item_weeks = weeks fixedSlot,
      item_location = itemLocation course fixedSlot\<rparr>"

definition itemsOfSlot :: "Course \<Rightarrow> SchedulingOptions \<Rightarrow> FixedTimeSlot \<Rightarrow> ScheduleItem list" where
  \<comment> \<open>one turn of the loop over \<open>course.fixedTimeSlots\<close>: the items it pushes\<close>
  "itemsOfSlot course options fixedSlot =
     (case timeSlotIds fixedSlot of
        None \<Rightarrow> []
      | Some ids \<Rightarrow>
          if slotSkipped fixedSlot options then []
          else map (makeItem course options fixedSlot) ids)"

definition scheduleForCourse :: "Course \<Rightarrow> SchedulingOptions \<Rightarrow> ScheduleItem list" where
  \<comment> \<open>the items the method appends to \<open>this.schedule\<close>\<close>
  "scheduleForCourse course options =
     (case fixedTimeSlots course of
        None \<Rightarrow> []
      | Some slots \<Rightarrow> concat (map (itemsOfSlot course options) slots))"

section \<open>Conflict detection\<close>

definition hasWeekOverlap :: "WeekRange list option \<Rightarrow> WeekRange list option \<Rightarrow> bool" where
  "hasWeekOverlap weeks1 weeks2 =
     (case (weeks1, weeks2) of
        (Some w1, Some w2) \<Rightarrow>
          if length w1 = 0 \<or> length w2 = 0 then True
          else list_ex (\<lambda>range1.
                 list_ex (\<lambda>range2. start range1 \<le> end' range2 \<and> end' range1 \<ge> start range2) w2) w1
      | _ \<Rightarrow> True)"

definition includesItem :: "ItemRef list \<Rightarrow> ItemRef \<Rightarrow> bool" where
  \<comment> \<open>\<open>conflicting.includes(item)\<close> compares objects, not their contents\<close>
  "includesItem xs x = list_ex (\<lambda>y. fst y = fst x) xs"

fun innerLoop :: "ItemRef \<Rightarrow> ItemRef list \<times> bool \<Rightarrow> ItemRef list \<Rightarrow> ItemRef list \<times> bool" where
  \<comment> \<open>the loop over \<open>j\<close>; the state is \<open>conflicting\<close> and \<open>hasConflict\<close>, the last argument
      holds the items after \<open>item1\<close>\<close>
  "innerLoop item1 (conflicting, hasConflict) [] = (conflicting, hasConflict)"
| "innerLoop item1 (conflicting, hasConflict) (item2 # rest) =
     (if hasWeekOverlap (item_weeks (snd item1)) (item_weeks (snd item2))
      then innerLoop item1
             (if \<not> includesItem conflicting item2 then conflicting @ [item2] else conflicting, True) rest
      else innerLoop item1 (conflicting, hasConflict) rest)"

fun outerLoop :: "ItemRef list \<Rightarrow> ItemRef list \<Rightarrow> ItemRef list" where
  \<comment> \<open>the loop over \<open>i\<close>; the first argument is \<open>conflicting\<close>\<close>
  "outerLoop conflicting [] = conflicting"
| "outerLoop conflicting (item1 # rest) =
     (case innerLoop item1 (conflicting, False) rest of
        (conflicting1, hasConflict) \<Rightarrow>
          outerLoop
            (if hasConflict \<and> \<not> includesItem conflicting1 item1 then conflicting1 @ [item1]
             else conflicting1)
            rest)"

definition findWeekConflictingItems :: "ItemRef list \<Rightarrow> int option \<Rightarrow> ItemRef list" where
  "findWeekConflictingItems items selWeek =
     (if truthyNumber selWeek
      then (case selWeek of
              Some w \<Rightarrow>
                filter (\<lambda>item. item_weeks (snd item) = None \<or> isWeekInRanges w (item_weeks (snd item)))
                  items
            | None \<Rightarrow> [])
      else outerLoop [] items)"

definition timeKey :: "ScheduleItem \<Rightarrow> jstring" where
  \<comment> \<open>\<open>`${item.dayOfWeek}-${item.timeSlotId}`\<close>\<close>
  "timeKey item = toString (item_dayOfWeek item) @ [45] @ timeSlotId item"

fun groupLoop :: "int option \<Rightarrow> (jstring \<times> ItemRef list) list \<Rightarrow> ItemRef list \<Rightarrow> (jstring \<times> ItemRef list) list"
  where
  \<comment> \<open>\<open>this.schedule.forEach\<close>: the second argument is \<open>timeMap\<close>, a map that keeps the order in
      which its keys were first set\<close>
  "groupLoop selWeek timeMap [] = timeMap"
| "groupLoop selWeek timeMap (item # rest) =
     (if truthyNumber selWeek \<and> item_weeks (snd item) \<noteq> None
         \<and> (case selWeek of Some w \<Rightarrow> \<not> isWeekInRanges w (item_weeks (snd item)) | None \<Rightarrow> False)
      then groupLoop selWeek timeMap rest
      else
        let key = timeKey (snd item);
            old = (case map_of timeMap key of Some xs \<Rightarrow> xs | None \<Rightarrow> [])
        in groupLoop selWeek (AList.update key (old @ [item]) timeMap) rest)"

definition dayNames :: "jstring list" where
  "dayNames = [[], [21608, 19968], [21608, 20108], [21608, 19977], [21608, 22235],
               [21608, 20116], [21608, 20845], [21608, 26085]]"

definition undefinedText :: jstring where
  \<comment> \<open>\<open>undefined\<close> in a template literal reads \<open>undefined\<close>\<close>
  "undefinedText = [117, 110, 100, 101, 102, 105, 110, 101, 100]"

definition conflictMessage :: "TimeSlot list \<Rightarrow> int option \<Rightarrow> jstring \<Rightarrow> jstring" where
  \<comment> \<open>the message of a conflict, from the key of its group\<close>
  "conflictMessage tss selWeek key =
     (let parts = splitOn 45 key;
          dayPart = (case parts of p0 # ps \<Rightarrow> p0 | [] \<Rightarrow> []);
          idPart = (case parts of p0 # p1 # ps \<Rightarrow> Some p1 | _ \<Rightarrow> None);
          timeSlot = find (\<lambda>ts. Some (ts_id ts) = idPart) tss;
          dayName = (if takeWhile isDigit dayPart = [] then undefinedText
                     else if parseInt dayPart < int (length dayNames)
                     then dayNames ! nat (parseInt dayPart) else undefinedText);
          weekInfo = (if truthyNumber selWeek
                      then (case selWeek of Some w \<Rightarrow> [31532] @ toString w @ [21608, 32] | None \<Rightarrow> [])
                      else []);
          idText = (case idPart of Some t \<Rightarrow> t | None \<Rightarrow> undefinedText);
          slotName = (case timeSlot of
                        Some ts \<Rightarrow> if ts_name ts \<noteq> [] then ts_name ts else idText
                      | None \<Rightarrow> idText)
      in weekInfo @ dayName @ [32] @ slotName @ [32, 26377, 22810, 20010, 35838, 31243, 23433, 25490])"

definition conflictOfGroup :: "TimeSlot list \<Rightarrow> int option \<Rightarrow> jstring \<times> ItemRef list \<Rightarrow> Conflict list" where
  \<comment> \<open>one call of the function given to \<open>timeMap.forEach\<close>: the conflict it pushes, if any\<close>
  "conflictOfGroup tss selWeek entry =
     (case entry of (key, items) \<Rightarrow>
        if length items > 1 then
          let conflictItems = findWeekConflictingItems items selWeek in
          if length conflictItems > 1
          then [\<lparr>conflict_type = [116, 105, 109, 101],
                 conflict_message = conflictMessage tss selWeek key,
                 conflict_items = conflictItems\<rparr>]
          else []
        else [])"

definition detectTimeConflicts :: "TimeSlot list \<Rightarrow> ScheduleItem list \<Rightarrow> int option \<Rightarrow> Conflict list" where
  "detectTimeConflicts tss sched selWeek =
     concat (map (conflictOfGroup tss selWeek) (groupLoop selWeek [] (enumerate 0 sched)))"

definition detectConflicts :: "TimeSlot list \<Rightarrow> ScheduleItem list \<Rightarrow> int option \<Rightarrow> Conflict list" where
  "detectConflicts tss sched selWeek = detectTimeConflicts tss sched selWeek"

definition weekInfoText :: "SchedulingOptions \<Rightarrow> jstring" where
  "weekInfoText options =
     (if truthyNumber (selectedWeek options)
      then (case selectedWeek options of Some w \<Rightarrow> [31532] @ toString w @ [21608] | None \<Rightarrow> [])
      else
        (case weekRange options of
           Some r \<Rightarrow> [31532] @ toString (start r) @ [45] @ toString (end' r) @ [21608]
         | None \<Rightarrow> [20840, 23398, 26399]))"

definition generateSchedule :: "Course list \<Rightarrow> TimeSlot list \<Rightarrow> SchedulingOptions \<Rightarrow> SchedulingResult" where
  \<comment> \<open>The body of the \<open>try\<close> block. Nothing in it raises on courses of the shapes modelled
      here, so the \<open>catch\<close> branch (a result with \<open>success = false\<close> and an empty schedule) is
      never taken.\<close>
  "generateSchedule courses timeSlots options =
     (let sched = concat (map (\<lambda>course. scheduleForCourse course options) courses);
          detected = detectConflicts (sort_key ts_order timeSlots) sched (selectedWeek options);
          weekInfo = weekInfoText options
      in \<lparr>schedule = sched,
          conflicts = detected,
          success = (length detected = 0),
          message =
            (if length detected = 0
             then weekInfo @ [35838, 34920, 29983, 25104, 25104, 21151, 65281]
             else weekInfo @ [35838, 34920, 29983, 25104, 23436, 25104, 65292, 20294, 23384, 22312, 32]
                    @ toString (int (length detected)) @ [32, 20010, 26102, 38388, 20914, 31361])\<rparr>)"

section \<open>Example data and predicates of the statements\<close>

definition exampleCourse ::
  "jstring \<Rightarrow> WeekRange list option \<Rightarrow> jstring option \<Rightarrow> jstring option \<Rightarrow> Course" where
  \<comment> \<open>a course with one fixed time slot on day 1, period \<open>5\<close>\<close>
  "exampleCourse cid ws slotLoc courseLoc =
     \<lparr>course_id = cid, course_name = [], course_teacherId = [],
      fixedTimeSlots = Some [\<lparr>dayOfWeek = 1, timeSlotIds = Some [[53]], weeks = ws, location = slotLoc\<rparr>],
      course_location = courseLoc\<rparr>"

definition overlapsPeer :: "ScheduleItem list \<Rightarrow> ItemRef \<Rightarrow> bool" where
  \<comment> \<open>the item overlaps at least one other item of its group: another item of the schedule
      with the same day and period whose weeks overlap its own\<close>
  "overlapsPeer sched a =
     (\<exists>b\<in>set (enumerate 0 sched).
        fst b \<noteq> fst a
      \<and> item_dayOfWeek (snd b) = item_dayOfWeek (snd a)
      \<and> timeSlotId (snd b) = timeSlotId (snd a)
      \<and> hasWeekOverlap (item_weeks (snd a)) (item_weeks (snd b)))"

definition exampleItem :: "jstring \<Rightarrow> WeekRange list option \<Rightarrow> ScheduleItem" where
  \<comment> \<open>a schedule item on day 1, period \<open>5\<close>\<close>
  "exampleItem cid ws =
     \<lparr>item_id = cid, courseId = cid, teacherId = [], timeSlotId = [53], item_dayOfWeek = 1,
      item_weeks = ws, item_location = None\<rparr>"

definition isPeriodText :: "jstring \<Rightarrow> bool" where
  \<comment> \<open>the text has the form of a period range: the character 31532, digits, optionally
      \<open>-\<close> and digits, and the character 33410\<close>
  "isPeriodText p =
     (\<exists>d1. d1 \<noteq> [] \<and> list_all isDigit d1 \<and>
        (p = [31532] @ d1 @ [33410]
         \<or> (\<exists>d2. d2 \<noteq> [] \<and> list_all isDigit d2 \<and> p = [31532] @ d1 @ [45] @ d2 @ [33410])))"

definition containsPeriodText :: "jstring \<Rightarrow> bool" where
  \<comment> \<open>some part of the string is a period range\<close>
  "containsPeriodText s = (\<exists>pre p post. s = pre @ p @ post \<and> isPeriodText p)"

fun firstOcc :: "'a list \<Rightarrow> 'a list" where
  \<comment> \<open>the distinct elements of a list, in the order of their first occurrence\<close>
  "firstOcc [] = []"
| "firstOcc (x # xs) = x # filter (\<lambda>y. y \<noteq> x) (firstOcc xs)"

definition foldWeeks :: "FixedTimeSlot \<Rightarrow> FixedTimeSlot list \<Rightarrow> FixedTimeSlot" where
  \<comment> \<open>the first slot of a key after the further slots of that key, in order\<close>
  "foldWeeks s rest = s\<lparr>weeks := foldl combineWeeks (weeks s) (map weeks rest)\<rparr>"

definition weeksOfOption :: "WeekRange list option \<Rightarrow> int set" where
  \<comment> \<open>the weeks of an optional list of ranges that is present\<close>
  "weeksOfOption w = (case w of Some l \<Rightarrow> weeksOf l | None \<Rightarrow> {})"

definition hasValidWeeks :: "FixedTimeSlot \<Rightarrow> bool" where
  \<comment> \<open>the slot has a non-empty list of week ranges, each with \<open>start \<le> end\<close>\<close>
  "hasValidWeeks s =
     (case weeks s of Some l \<Rightarrow> l \<noteq> [] \<and> list_all (\<lambda>r. start r \<le> end' r) l | None \<Rightarrow> False)"

section \<open>Properties of the week ranges\<close>

text \<open>
  Claim C6. For every week \<open>w\<close> and optional list of ranges \<open>rs\<close>, \<open>isWeekInRanges w rs\<close> is
  true when \<open>rs\<close> is absent or empty, and otherwise exactly when some range of \<open>rs\<close> has
  \<open>start \<le> w \<le> end\<close>. Week 5 is in \<open>[{1,6},{7,8}]\<close>, week 10 is not, and week 5 is in
  an absent list.
\<close>

theorem isWeekInRanges_spec:
  "(isWeekInRanges w rs \<longleftrightarrow>
      (rs = None \<or> rs = Some [] \<or>
       (\<exists>l r. rs = Some l \<and> r \<in> set l \<and> start r \<le> w \<and> w \<le> end' r)))
   \<and> isWeekInRanges 5 (Some [\<lparr>start = 1, end' = 6\<rparr>, \<lparr>start = 7, end' = 8\<rparr>]) = True
   \<and> isWeekInRanges 10 (Some [\<lparr>start = 1, end' = 6\<rparr>, \<lparr>start = 7, end' = 8\<rparr>]) = False
   \<and> isWeekInRanges 5 None = True"
  by (cases rs) (auto simp: isWeekInRanges_def list_ex_iff)


lemma weeksOf_append: "weeksOf (xs @ ys) = weeksOf xs \<union> weeksOf ys"
  by (auto simp: weeksOf_def)

lemma weeksOf_Cons: "weeksOf (x # xs) = {start x .. end' x} \<union> weeksOf xs"
  by (auto simp: weeksOf_def)

lemma weeksOf_Nil: "weeksOf [] = {}"
  by (simp add: weeksOf_def)

lemma mergeLoop_snoc:
  "mergeLoop (ms @ [l]) (r # rest) =
     (if start r \<le> end' l + 1
      then mergeLoop (ms @ [l\<lparr>end' := max (end' l) (end' r)\<rparr>]) rest
      else mergeLoop (ms @ [l, r]) rest)"
  by (simp add: Let_def)

lemma mergeLoop_props:
  assumes "sorted (map start rest)"
    and "\<forall>m\<in>set merged. \<forall>r\<in>set rest. start m \<le> start r"
    and "sorted_wrt gap merged"
    and "\<forall>m\<in>set merged. start m \<le> end' m"
    and "\<forall>r\<in>set rest. start r \<le> end' r"
  shows "weeksOf (mergeLoop merged rest) = weeksOf merged \<union> weeksOf rest
       \<and> sorted_wrt gap (mergeLoop merged rest)
       \<and> (\<forall>m\<in>set (mergeLoop merged rest). start m \<le> end' m)"
  using assms
proof (induction rest arbitrary: merged)
  case Nil
  then show ?case by (simp add: weeksOf_Nil)
next
  case (Cons r rest)
  show ?case
  proof (cases merged rule: rev_cases)
    case Nil
    have "weeksOf (mergeLoop [r] rest) = weeksOf [r] \<union> weeksOf rest
       \<and> sorted_wrt gap (mergeLoop [r] rest)
       \<and> (\<forall>m\<in>set (mergeLoop [r] rest). start m \<le> end' m)"
      using Cons.prems by (intro Cons.IH) auto
    then show ?thesis using Nil by (simp add: weeksOf_Cons weeksOf_Nil)
  next
    case (snoc ms l)
    have sl: "start l \<le> start r" and vl: "start l \<le> end' l" and vr: "start r \<le> end' r"
      using Cons.prems snoc by auto
    show ?thesis
    proof (cases "start r \<le> end' l + 1")
      case True
      let ?l' = "l\<lparr>end' := max (end' l) (end' r)\<rparr>"
      have "weeksOf (mergeLoop (ms @ [?l']) rest) = weeksOf (ms @ [?l']) \<union> weeksOf rest
       \<and> sorted_wrt gap (mergeLoop (ms @ [?l']) rest)
       \<and> (\<forall>m\<in>set (mergeLoop (ms @ [?l']) rest). start m \<le> end' m)"
        using Cons.prems snoc by (intro Cons.IH) (auto simp: sorted_wrt_append gap_def)
      moreover have "{start l .. max (end' l) (end' r)} = {start l .. end' l} \<union> {start r .. end' r}"
        using sl vl vr True by auto
      ultimately show ?thesis using snoc True
        by (simp add: mergeLoop_snoc weeksOf_append weeksOf_Cons weeksOf_Nil Un_assoc)
    next
      case False
      have "weeksOf (mergeLoop (ms @ [l, r]) rest) = weeksOf (ms @ [l, r]) \<union> weeksOf rest
       \<and> sorted_wrt gap (mergeLoop (ms @ [l, r]) rest)
       \<and> (\<forall>m\<in>set (mergeLoop (ms @ [l, r]) rest). start m \<le> end' m)"
        using Cons.prems snoc False sl by (intro Cons.IH) (auto simp: sorted_wrt_append gap_def)
      then show ?thesis using snoc False
        by (simp add: mergeLoop_snoc weeksOf_append weeksOf_Cons weeksOf_Nil Un_assoc)
    qed
  qed
qed

lemma weeksOf_sort: "weeksOf (sort_key start xs) = weeksOf xs"
  by (simp add: weeksOf_def)

lemma mergeWeekRanges_props:
  assumes "\<forall>r\<in>set xs. start r \<le> end' r"
  shows "weeksOf (mergeWeekRanges xs) = weeksOf xs"
    and "sorted_wrt gap (mergeWeekRanges xs)"
    and "\<forall>m\<in>set (mergeWeekRanges xs). start m \<le> end' m"
proof -
  have "weeksOf (mergeLoop [] (sort_key start xs)) = weeksOf [] \<union> weeksOf (sort_key start xs)
       \<and> sorted_wrt gap (mergeLoop [] (sort_key start xs))
       \<and> (\<forall>m\<in>set (mergeLoop [] (sort_key start xs)). start m \<le> end' m)"
    using assms by (intro mergeLoop_props) auto
  then show "weeksOf (mergeWeekRanges xs) = weeksOf xs"
    and "sorted_wrt gap (mergeWeekRanges xs)"
    and "\<forall>m\<in>set (mergeWeekRanges xs). start m \<le> end' m"
    by (auto simp: mergeWeekRanges_def weeksOf_sort weeksOf_Nil)
qed

lemma gap_total:
  assumes "sorted_wrt gap out" "a \<in> set out" "b \<in> set out" "a \<noteq> b"
  shows "gap a b \<or> gap b a"
  using assms
  by (induction out) auto

lemma gap_minimal:
  assumes sw: "sorted_wrt gap out"
    and v: "\<forall>m\<in>set out. start m \<le> end' m"
    and eq: "weeksOf ys = weeksOf out"
  shows "length out \<le> length ys"
proof -
  have dist: "distinct out"
    using sw v by (induction out) (fastforce simp: gap_def)+
  have cover: "\<forall>r\<in>set out. \<exists>q\<in>set ys. start q \<le> start r \<and> start r \<le> end' q"
  proof
    fix r assume "r \<in> set out"
    then have "start r \<in> weeksOf out" using v by (auto simp: weeksOf_def)
    then have "start r \<in> weeksOf ys" using eq by simp
    then show "\<exists>q\<in>set ys. start q \<le> start r \<and> start r \<le> end' q"
      by (auto simp: weeksOf_def)
  qed
  then obtain f where f: "\<forall>r\<in>set out. f r \<in> set ys \<and> start (f r) \<le> start r \<and> start r \<le> end' (f r)"
    by metis
  have sep: "False" if ab: "a \<in> set out" "b \<in> set out" "gap a b" "f a = f b" for a b
  proof -
    let ?w = "end' a + 1"
    have fa: "start (f a) \<le> start a" "start a \<le> end' a"
      and fb: "start b \<le> end' (f b)"
      using f ab v by auto
    have "start (f a) \<le> ?w" "?w \<le> end' (f a)"
      using fa fb ab(3,4) by (auto simp: gap_def)
    then have "?w \<in> weeksOf ys" using f ab by (auto simp: weeksOf_def)
    then have "?w \<in> weeksOf out" using eq by simp
    then obtain c where c: "c \<in> set out" "start c \<le> ?w" "?w \<le> end' c"
      by (auto simp: weeksOf_def)
    have "c \<noteq> a" using c by auto
    then have "gap a c \<or> gap c a" using gap_total [OF sw ab(1) c(1)] by auto
    then show False using c v ab by (auto simp: gap_def)
  qed
  have "inj_on f (set out)"
  proof (rule inj_onI)
    fix a b assume ab: "a \<in> set out" "b \<in> set out" "f a = f b"
    show "a = b"
    proof (rule ccontr)
      assume "a \<noteq> b"
      then have "gap a b \<or> gap b a" using gap_total [OF sw ab(1) ab(2)] by auto
      then show False using sep ab by metis
    qed
  qed
  moreover have "f ` set out \<subseteq> set ys" using f by auto
  ultimately have "card (set out) \<le> card (set ys)"
    by (meson List.finite_set card_inj_on_le)
  then show ?thesis using dist
    by (metis card_length distinct_card le_trans)
qed

lemma mergeLoop_coalesce: "mergeLoop (ms @ [cur]) rest = ms @ coalesce cur rest"
proof (induction rest arbitrary: ms cur)
  case Nil
  show ?case by simp
next
  case (Cons r rest)
  show ?case
  proof (cases "start r \<le> end' cur + 1")
    case True
    then show ?thesis using Cons.IH [of ms] by (simp add: mergeLoop_snoc)
  next
    case False
    have "mergeLoop ((ms @ [cur]) @ [r]) rest = (ms @ [cur]) @ coalesce r rest"
      by (rule Cons.IH)
    then show ?thesis using False by (simp add: mergeLoop_snoc)
  qed
qed

lemma mergeWeekRanges_mergeSpec: "mergeWeekRanges xs = mergeSpec xs"
proof (cases "sort_key start xs")
  case Nil
  then have "xs = []" by (metis length_0_conv length_sort)
  then show ?thesis by (simp add: mergeWeekRanges_def mergeSpec_def)
next
  case (Cons r rs)
  then have ne: "xs \<noteq> []" by auto
  have "mergeLoop ([] @ [r]) rs = [] @ coalesce r rs" by (rule mergeLoop_coalesce)
  then show ?thesis using Cons ne by (simp add: mergeWeekRanges_def mergeSpec_def)
qed

text \<open>
  Claim C4. For every list of ranges with \<open>start \<le> end\<close>, \<open>mergeWeekRanges\<close> is the walk over the
  ranges sorted by start that the specification describes (a next range is coalesced into
  the current one exactly when its start is at most the current end plus one, the end
  becoming the larger of the two); its result denotes the same set of weeks as the input,
  its ranges are pairwise separated by at least one week (neither overlapping nor adjacent),
  and no list of ranges that denotes the same weeks is shorter. \<open>[{1,6},{7,8}]\<close> merges to
  \<open>[{1,8}]\<close> and \<open>[{1,5},{8,10}]\<close> is returned unchanged.
\<close>

theorem mergeWeekRanges_minimal:
  assumes "\<forall>r\<in>set xs. start r \<le> end' r"
  shows "mergeWeekRanges xs = mergeSpec xs
       \<and> weeksOf (mergeWeekRanges xs) = weeksOf xs
       \<and> sorted_wrt gap (mergeWeekRanges xs)
       \<and> (\<forall>r\<in>set (mergeWeekRanges xs). start r \<le> end' r)
       \<and> (\<forall>ys. weeksOf ys = weeksOf xs \<longrightarrow> length (mergeWeekRanges xs) \<le> length ys)
       \<and> mergeWeekRanges [\<lparr>start = 1, end' = 6\<rparr>, \<lparr>start = 7, end' = 8\<rparr>]
           = [\<lparr>start = 1, end' = 8\<rparr>]
       \<and> mergeWeekRanges [\<lparr>start = 1, end' = 5\<rparr>, \<lparr>start = 8, end' = 10\<rparr>]
           = [\<lparr>start = 1, end' = 5\<rparr>, \<lparr>start = 8, end' = 10\<rparr>]"
proof -
  note p = mergeWeekRanges_props [OF assms]
  have "\<forall>ys. weeksOf ys = weeksOf xs \<longrightarrow> length (mergeWeekRanges xs) \<le> length ys"
    using gap_minimal [OF p(2) p(3)] p(1) by simp
  moreover have "mergeWeekRanges [\<lparr>start = 1, end' = 6\<rparr>, \<lparr>start = 7, end' = 8\<rparr>]
           = [\<lparr>start = 1, end' = 8\<rparr>]"
    by (simp add: mergeWeekRanges_def)
  moreover have "mergeWeekRanges [\<lparr>start = 1, end' = 5\<rparr>, \<lparr>start = 8, end' = 10\<rparr>]
           = [\<lparr>start = 1, end' = 5\<rparr>, \<lparr>start = 8, end' = 10\<rparr>]"
    by (simp add: mergeWeekRanges_def)
  ultimately show ?thesis
    using p mergeWeekRanges_mergeSpec [of xs] by simp
qed

theorem mergeWeekRanges_minimal_witness:
  "list_all (\<lambda>r. start r \<le> end' r) [\<lparr>start = 7, end' = 8\<rparr>, \<lparr>start = 1, end' = 6\<rparr>]
   \<and> weeksOf (mergeWeekRanges [\<lparr>start = 7, end' = 8\<rparr>, \<lparr>start = 1, end' = 6\<rparr>])
       = weeksOf [\<lparr>start = 7, end' = 8\<rparr>, \<lparr>start = 1, end' = 6\<rparr>]
   \<and> length (mergeWeekRanges [\<lparr>start = 7, end' = 8\<rparr>, \<lparr>start = 1, end' = 6\<rparr>])
       \<le> length [\<lparr>start = 1, end' = 8\<rparr>]"
proof -
  have h: "\<forall>r\<in>set [\<lparr>start = 7, end' = 8\<rparr>, \<lparr>start = 1, end' = 6\<rparr>]. start r \<le> end' r"
    by simp
  have a: "weeksOf (mergeWeekRanges [\<lparr>start = 7, end' = 8\<rparr>, \<lparr>start = 1, end' = 6\<rparr>])
       = weeksOf [\<lparr>start = 7, end' = 8\<rparr>, \<lparr>start = 1, end' = 6\<rparr>]"
    using mergeWeekRanges_minimal [OF h] by blast
  have b: "length (mergeWeekRanges [\<lparr>start = 7, end' = 8\<rparr>, \<lparr>start = 1, end' = 6\<rparr>])
       \<le> length [\<lparr>start = 1, end' = 8\<rparr>]"
    by (simp add: mergeWeekRanges_def)
  show ?thesis using a b by simp
qed

section \<open>Properties of the scheduling algorithm\<close>

lemma digitsOf_small: "n < 10 \<Longrightarrow> digitsOf n = [48 + n]"
  by (simp add: digitsOf.simps)

lemma toString_small: "0 \<le> i \<Longrightarrow> i < 10 \<Longrightarrow> toString i = [48 + nat i]"
  by (simp add: toString_def digitsOf_small)

lemmas sched_eval = generateSchedule_def scheduleForCourse_def itemsOfSlot_def slotSkipped_def
  makeItem_def itemLocation_def getWeekSuffix_def noOptions_def truthyNumber_def truthyString_def
  detectConflicts_def detectTimeConflicts_def timeKey_def conflictOfGroup_def
  findWeekConflictingItems_def includesItem_def hasWeekOverlap_def weekInfoText_def
  toString_small enumerate_eq_zip exampleCourse_def

lemma schedule_generateSchedule:
  "schedule (generateSchedule courses tss options) = concat (map (\<lambda>course. scheduleForCourse course options) courses)"
  by (simp add: generateSchedule_def Let_def)

lemma slotSkipped_noOptions: "slotSkipped f noOptions = False"
  by (simp add: slotSkipped_def noOptions_def truthyNumber_def)

lemma length_itemsOfSlot:
  "length (itemsOfSlot c noOptions f) = (case timeSlotIds f of None \<Rightarrow> 0 | Some ids \<Rightarrow> length ids)"
  by (simp add: itemsOfSlot_def slotSkipped_noOptions split: option.splits)

lemma length_scheduleForCourse:
  "length (scheduleForCourse c noOptions) =
     (case fixedTimeSlots c of None \<Rightarrow> 0
      | Some slots \<Rightarrow> (\<Sum>f\<leftarrow>slots. case timeSlotIds f of None \<Rightarrow> 0 | Some ids \<Rightarrow> length ids))"
  by (simp add: scheduleForCourse_def length_concat comp_def length_itemsOfSlot split: option.splits)

text \<open>
  Claim C5. With no week-filtering options, schedule generation emits one item for every
  course, every one of its fixed time slots that has a list of period ids, and every period
  id of that slot: the length of the schedule is the sum of the numbers of period ids. A
  course with slots on day 1 and day 3, each with the periods \<open>5\<close> and \<open>6\<close>, yields 4 items.
\<close>

theorem generateSchedule_count:
  "length (schedule (generateSchedule courses tss noOptions)) =
     (\<Sum>c\<leftarrow>courses. case fixedTimeSlots c of None \<Rightarrow> 0
         | Some slots \<Rightarrow> (\<Sum>f\<leftarrow>slots. case timeSlotIds f of None \<Rightarrow> 0 | Some ids \<Rightarrow> length ids))
   \<and> schedule (generateSchedule courses tss noOptions) =
     concat (map (\<lambda>c. case fixedTimeSlots c of None \<Rightarrow> []
         | Some slots \<Rightarrow> concat (map (\<lambda>f. case timeSlotIds f of None \<Rightarrow> []
              | Some ids \<Rightarrow> map (makeItem c noOptions f) ids) slots)) courses)
   \<and> length (schedule (generateSchedule
        [c\<lparr>fixedTimeSlots := Some [\<lparr>dayOfWeek = 1, timeSlotIds = Some [[53], [54]], weeks = w1, location = l1\<rparr>,
                                     \<lparr>dayOfWeek = 3, timeSlotIds = Some [[53], [54]], weeks = w2, location = l2\<rparr>]\<rparr>]
        tss noOptions)) = 4"
proof -
  have a: "itemsOfSlot c noOptions = (\<lambda>f. case timeSlotIds f of None \<Rightarrow> []
              | Some ids \<Rightarrow> map (makeItem c noOptions f) ids)" for c
    by (auto simp: itemsOfSlot_def slotSkipped_noOptions fun_eq_iff split: option.splits)
  have b: "(\<lambda>c. scheduleForCourse c noOptions) = (\<lambda>c. case fixedTimeSlots c of None \<Rightarrow> []
         | Some slots \<Rightarrow> concat (map (\<lambda>f. case timeSlotIds f of None \<Rightarrow> []
              | Some ids \<Rightarrow> map (makeItem c noOptions f) ids) slots))"
    by (auto simp: scheduleForCourse_def a fun_eq_iff split: option.splits)
  show ?thesis
    apply (intro conjI)
    subgoal by (simp add: schedule_generateSchedule length_concat comp_def length_scheduleForCourse)
    subgoal by (simp add: schedule_generateSchedule b)
    subgoal by (simp add: schedule_generateSchedule length_concat comp_def length_scheduleForCourse)
    done
qed

text \<open>
  Claim C2, as stated: a run that ends without an exception is a successful result even when
  conflicts were detected. The code sets the flag \<open>success\<close> to \<open>conflicts.length === 0\<close>: for two
  courses on day 1, period \<open>5\<close>, with the overlapping weeks 1 to 8 and 6 to 10, the conflict
  list is not empty and \<open>success\<close> is false.
\<close>

theorem generateSchedule_conflicts_fail:
  "conflicts (generateSchedule
      [exampleCourse [65] (Some [\<lparr>start = 1, end' = 8\<rparr>]) None None,
       exampleCourse [66] (Some [\<lparr>start = 6, end' = 10\<rparr>]) None None] [] noOptions) \<noteq> []
   \<and> success (generateSchedule
      [exampleCourse [65] (Some [\<lparr>start = 1, end' = 8\<rparr>]) None None,
       exampleCourse [66] (Some [\<lparr>start = 6, end' = 10\<rparr>]) None None] [] noOptions) = False"
  by (simp add: sched_eval)

text \<open>
  Claim C2, amended. A run that ends without an exception returns the whole generated
  schedule together with the detected conflicts, and its flag \<open>success\<close> is true exactly when
  the conflict list is empty: conflicts do not empty the schedule, but they make the result
  unsuccessful.
\<close>

theorem generateSchedule_success_iff:
  "success (generateSchedule courses tss options)
     = (conflicts (generateSchedule courses tss options) = [])
   \<and> schedule (generateSchedule courses tss options)
     = concat (map (\<lambda>course. scheduleForCourse course options) courses)
   \<and> conflicts (generateSchedule courses tss options)
     = detectTimeConflicts (sort_key ts_order tss)
         (concat (map (\<lambda>course. scheduleForCourse course options) courses)) (selectedWeek options)"
  by (simp add: generateSchedule_def Let_def detectConflicts_def)

text \<open>
  Claim C10, as stated: an item carries the location of its fixed time slot when that is
  present. A slot whose location is the empty string has a location, yet the item takes the
  location of the course: \<open>fixedSlot.location || course.location\<close> treats the empty string as
  absent.
\<close>

theorem item_location_fallback_empty:
  "map item_location (schedule (generateSchedule
      [exampleCourse [65] None (Some []) (Some [66])] [] noOptions)) = [Some [66]]"
  by (simp add: sched_eval)

lemma itemsOfSlot_item:
  assumes "item \<in> set (itemsOfSlot c options f)"
  shows "item_weeks item = weeks f
       \<and> item_location item = (if truthyString (location f) then location f else course_location c)
       \<and> courseId item = course_id c
       \<and> item_dayOfWeek item = dayOfWeek f
       \<and> (\<exists>ids. timeSlotIds f = Some ids \<and> timeSlotId item \<in> set ids)"
proof (cases "timeSlotIds f")
  case None
  then show ?thesis using assms by (simp add: itemsOfSlot_def)
next
  case (Some ids)
  then show ?thesis using assms
    by (auto simp: itemsOfSlot_def makeItem_def itemLocation_def split: if_splits)
qed

text \<open>
  Claim C10, amended. Every item of a generated schedule comes from a fixed time slot of
  one of the courses; its weeks are the weeks of that slot, unchanged, and its location is
  the location of the slot when that is present and not the empty string, and the location
  of the course otherwise.
\<close>

theorem schedule_item_source:
  "\<forall>item\<in>set (schedule (generateSchedule courses tss options)).
     \<exists>c\<in>set courses. \<exists>slots. fixedTimeSlots c = Some slots \<and>
       (\<exists>f\<in>set slots.
          item_weeks item = weeks f
        \<and> item_location item =
            (case location f of
               Some l \<Rightarrow> if l \<noteq> [] then Some l else course_location c
             | None \<Rightarrow> course_location c)
        \<and> courseId item = course_id c
        \<and> item_dayOfWeek item = dayOfWeek f
        \<and> (\<exists>ids. timeSlotIds f = Some ids \<and> timeSlotId item \<in> set ids))"
proof
  fix item assume "item \<in> set (schedule (generateSchedule courses tss options))"
  then obtain c where c: "c \<in> set courses" "item \<in> set (scheduleForCourse c options)"
    by (auto simp: schedule_generateSchedule)
  then obtain slots where s: "fixedTimeSlots c = Some slots"
      "item \<in> set (concat (map (itemsOfSlot c options) slots))"
    by (cases "fixedTimeSlots c") (auto simp: scheduleForCourse_def)
  then obtain f where f0: "f \<in> set slots" "item \<in> set (itemsOfSlot c options f)"
    by auto
  note f = s(1) f0
  have loc: "(if truthyString (location f) then location f else course_location c)
      = (case location f of Some l \<Rightarrow> if l \<noteq> [] then Some l else course_location c
         | None \<Rightarrow> course_location c)"
    by (simp add: truthyString_def split: option.splits)
  show "\<exists>c\<in>set courses. \<exists>slots. fixedTimeSlots c = Some slots \<and>
       (\<exists>f\<in>set slots.
          item_weeks item = weeks f
        \<and> item_location item =
            (case location f of
               Some l \<Rightarrow> if l \<noteq> [] then Some l else course_location c
             | None \<Rightarrow> course_location c)
        \<and> courseId item = course_id c
        \<and> item_dayOfWeek item = dayOfWeek f
        \<and> (\<exists>ids. timeSlotIds f = Some ids \<and> timeSlotId item \<in> set ids))"
    using c(1) f(1,2) itemsOfSlot_item [OF f(3)] unfolding loc by blast
qed

theorem schedule_item_source_witness:
  "schedule (generateSchedule [exampleCourse [65] (Some [\<lparr>start = 1, end' = 8\<rparr>]) (Some [67]) (Some [66])] [] noOptions) \<noteq> []
   \<and> list_all (\<lambda>item. item_weeks item = Some [\<lparr>start = 1, end' = 8\<rparr>] \<and> item_location item = Some [67])
       (schedule (generateSchedule [exampleCourse [65] (Some [\<lparr>start = 1, end' = 8\<rparr>]) (Some [67]) (Some [66])] [] noOptions))"
proof -
  let ?s = "schedule (generateSchedule [exampleCourse [65] (Some [\<lparr>start = 1, end' = 8\<rparr>]) (Some [67]) (Some [66])] [] noOptions)"
  have ne: "?s \<noteq> []" by (simp add: sched_eval)
  have "\<forall>item\<in>set ?s. item_weeks item = Some [\<lparr>start = 1, end' = 8\<rparr>] \<and> item_location item = Some [67]"
    using schedule_item_source [of "[exampleCourse [65] (Some [\<lparr>start = 1, end' = 8\<rparr>]) (Some [67]) (Some [66])]" "[]" noOptions]
    by (auto simp: exampleCourse_def)
  then show ?thesis using ne by (simp add: list_all_iff)
qed

section \<open>Properties of decimal strings\<close>

lemma digitsOf_ne: "digitsOf n \<noteq> []"
  by (subst digitsOf.simps) simp

lemma digitsOf_digits: "c \<in> set (digitsOf n) \<Longrightarrow> isDigit c"
proof (induction n arbitrary: c rule: digitsOf.induct)
  case (1 n)
  show ?case
  proof (cases "n < 10")
    case True
    then show ?thesis using "1.prems" by (simp add: digitsOf.simps [of n] isDigit_def)
  next
    case False
    then have "c \<in> set (digitsOf (n div 10)) \<or> c = 48 + n mod 10"
      using "1.prems" by (auto simp: digitsOf.simps [of n])
    then show ?thesis
    proof
      assume "c \<in> set (digitsOf (n div 10))"
      then show ?thesis using "1.IH" False by simp
    next
      assume "c = 48 + n mod 10"
      moreover have "n mod 10 < 10" by simp
      ultimately show ?thesis unfolding isDigit_def by linarith
    qed
  qed
qed

lemma digitsValue_digitsOf: "digitsValue (digitsOf n) = int n"
proof (induction n rule: digitsOf.induct)
  case (1 n)
  show ?case
  proof (cases "n < 10")
    case True
    then show ?thesis by (simp add: digitsOf.simps [of n] digitsValue_def)
  next
    case False
    then have "digitsValue (digitsOf n) = digitsValue (digitsOf (n div 10)) * 10 + int (n mod 10)"
      by (simp add: digitsOf.simps [of n] digitsValue_def)
    also have "\<dots> = int (n div 10) * 10 + int (n mod 10)"
      using "1.IH" False by simp
    also have "\<dots> = int n" by (simp add: zmod_int zdiv_int)
    finally show ?thesis .
  qed
qed

lemma digitsOf_inj: "digitsOf a = digitsOf b \<Longrightarrow> a = b"
  by (metis digitsValue_digitsOf of_nat_eq_iff)

lemma takeWhile_digitsOf_end: "takeWhile isDigit (digitsOf n) = digitsOf n"
  unfolding takeWhile_eq_all_conv using digitsOf_digits by blast

lemma dropWhile_digitsOf_end: "dropWhile isDigit (digitsOf n) = []"
  unfolding dropWhile_eq_Nil_conv using digitsOf_digits by blast

lemma takeWhile_digitsOf: "\<not> isDigit c \<Longrightarrow> takeWhile isDigit (digitsOf n @ c # rest) = digitsOf n"
  by (simp add: takeWhile_tail takeWhile_digitsOf_end)

lemma dropWhile_digitsOf: "\<not> isDigit c \<Longrightarrow> dropWhile isDigit (digitsOf n @ c # rest) = c # rest"
  using dropWhile_digitsOf_end [of n] by (simp add: dropWhile_append)

lemma not_digit_45: "\<not> isDigit 45"
  by (simp add: isDigit_def)

lemma digits_sep_inj:
  assumes "digitsOf a @ 45 # s = digitsOf b @ 45 # t"
  shows "a = b \<and> s = t"
proof -
  have "takeWhile isDigit (digitsOf a @ 45 # s) = takeWhile isDigit (digitsOf b @ 45 # t)"
    using assms by simp
  then have "digitsOf a = digitsOf b"
    by (simp add: takeWhile_digitsOf not_digit_45)
  then show ?thesis using assms digitsOf_inj by auto
qed

lemma hd_digitsOf: "isDigit (hd (digitsOf n))"
  using digitsOf_ne digitsOf_digits by (metis list.set_sel(1))

lemma toString_sep_inj:
  assumes "toString a @ 45 # s = toString b @ 45 # t"
  shows "a = b \<and> s = t"
proof -
  have mixed: False if "x < 0" "\<not> y < 0" "toString x @ 45 # u = toString y @ 45 # v"
    for x y :: int and u v
  proof -
    have "45 # digitsOf (nat (- x)) @ 45 # u = digitsOf (nat y) @ 45 # v"
      using that by (simp add: toString_def)
    then have "hd (digitsOf (nat y) @ 45 # v) = 45"
      by (metis list.sel(1))
    then have "hd (digitsOf (nat y)) = 45"
      using digitsOf_ne [of "nat y"] by (simp add: hd_append)
    then show False using hd_digitsOf [of "nat y"] not_digit_45 by simp
  qed
  show ?thesis
  proof (cases "a < 0")
    case an: True
    show ?thesis
    proof (cases "b < 0")
      case True
      have "digitsOf (nat (- a)) @ 45 # s = digitsOf (nat (- b)) @ 45 # t"
        using assms an True by (simp add: toString_def)
      then have "nat (- a) = nat (- b) \<and> s = t" by (rule digits_sep_inj)
      then show ?thesis using an True by auto
    next
      case False
      then show ?thesis using mixed [OF an False assms] by simp
    qed
  next
    case ap: False
    show ?thesis
    proof (cases "b < 0")
      case True
      then show ?thesis using mixed [OF True ap assms [symmetric]] by simp
    next
      case False
      have "digitsOf (nat a) @ 45 # s = digitsOf (nat b) @ 45 # t"
        using assms ap False by (simp add: toString_def)
      then have "nat a = nat b \<and> s = t" by (rule digits_sep_inj)
      then show ?thesis using ap False by auto
    qed
  qed
qed

lemma timeKey_eq_iff:
  "timeKey x = timeKey y \<longleftrightarrow> item_dayOfWeek x = item_dayOfWeek y \<and> timeSlotId x = timeSlotId y"
proof
  assume "timeKey x = timeKey y"
  then have "toString (item_dayOfWeek x) @ 45 # timeSlotId x
           = toString (item_dayOfWeek y) @ 45 # timeSlotId y"
    by (simp add: timeKey_def)
  then show "item_dayOfWeek x = item_dayOfWeek y \<and> timeSlotId x = timeSlotId y"
    by (rule toString_sep_inj)
next
  assume "item_dayOfWeek x = item_dayOfWeek y \<and> timeSlotId x = timeSlotId y"
  then show "timeKey x = timeKey y" by (simp add: timeKey_def)
qed

section \<open>Properties of conflict detection\<close>

lemma hasWeekOverlap_sym: "hasWeekOverlap a b = hasWeekOverlap b a"
  by (cases a; cases b) (auto simp: hasWeekOverlap_def list_ex_iff)

lemma includesItem_iff:
  assumes "inj_on fst (insert x (set c))"
  shows "includesItem c x \<longleftrightarrow> x \<in> set c"
proof
  assume "includesItem c x"
  then obtain y where y: "y \<in> set c" "fst y = fst x"
    by (auto simp: includesItem_def list_ex_iff)
  have "y = x" by (rule inj_onD [OF assms]) (use y in auto)
  then show "x \<in> set c" using y by simp
next
  assume "x \<in> set c"
  then show "includesItem c x" by (auto simp: includesItem_def list_ex_iff)
qed

lemma innerLoop_result:
  assumes "inj_on fst (set c \<union> set rest)"
  shows "set (fst (innerLoop x (c, h) rest))
           = set c \<union> {y \<in> set rest. hasWeekOverlap (item_weeks (snd x)) (item_weeks (snd y))}
       \<and> snd (innerLoop x (c, h) rest)
           = (h \<or> (\<exists>y\<in>set rest. hasWeekOverlap (item_weeks (snd x)) (item_weeks (snd y))))
       \<and> (distinct c \<longrightarrow> distinct (fst (innerLoop x (c, h) rest)))"
  using assms
proof (induction rest arbitrary: c h)
  case Nil
  show ?case by simp
next
  case (Cons y rest)
  have inc: "includesItem c y \<longleftrightarrow> y \<in> set c"
    using Cons.prems by (intro includesItem_iff) (auto elim: inj_on_subset)
  show ?case
  proof (cases "hasWeekOverlap (item_weeks (snd x)) (item_weeks (snd y))")
    case False
    have "inj_on fst (set c \<union> set rest)"
      using Cons.prems by (auto elim: inj_on_subset)
    from Cons.IH [OF this, of h] show ?thesis using False by auto
  next
    case True
    let ?c = "if \<not> includesItem c y then c @ [y] else c"
    have "inj_on fst (set ?c \<union> set rest)"
      using Cons.prems inc by (auto elim!: inj_on_subset)
    from Cons.IH [OF this, of True] have
      ih: "set (fst (innerLoop x (?c, True) rest))
           = set ?c \<union> {y \<in> set rest. hasWeekOverlap (item_weeks (snd x)) (item_weeks (snd y))}"
         "snd (innerLoop x (?c, True) rest)"
         "distinct ?c \<longrightarrow> distinct (fst (innerLoop x (?c, True) rest))"
      by auto
    have d: "distinct c \<longrightarrow> distinct ?c" using inc by auto
    have s: "set ?c = insert y (set c)" using inc by auto
    show ?thesis using True ih d unfolding s by (auto simp del: includesItem_def)
  qed
qed

lemma overlap_step_sets:
  assumes sym: "\<And>a b. ov a b \<Longrightarrow> ov b a" and xr: "x \<notin> R"
  shows "(C \<union> {y \<in> R. ov x y}) \<union> (if (\<exists>y\<in>R. ov x y) then {x} else {})
           \<union> {a \<in> R. \<exists>b\<in>R. b \<noteq> a \<and> ov a b}
       = C \<union> {a \<in> insert x R. \<exists>b\<in>insert x R. b \<noteq> a \<and> ov a b}"
proof (rule set_eqI)
  fix z
  show "z \<in> (C \<union> {y \<in> R. ov x y}) \<union> (if (\<exists>y\<in>R. ov x y) then {x} else {})
           \<union> {a \<in> R. \<exists>b\<in>R. b \<noteq> a \<and> ov a b}
     \<longleftrightarrow> z \<in> C \<union> {a \<in> insert x R. \<exists>b\<in>insert x R. b \<noteq> a \<and> ov a b}"
  proof (cases "z = x")
    case True
    then show ?thesis using xr by (auto split: if_splits)
  next
    case False
    then show ?thesis using xr sym by (auto split: if_splits)
  qed
qed

lemma outerLoop_result:
  assumes "inj_on fst (set c \<union> set xs)" "distinct xs"
  shows "set (outerLoop c xs)
           = set c \<union> {a \<in> set xs. \<exists>b\<in>set xs. b \<noteq> a
                          \<and> hasWeekOverlap (item_weeks (snd a)) (item_weeks (snd b))}
       \<and> (distinct c \<longrightarrow> distinct (outerLoop c xs))"
  using assms
proof (induction xs arbitrary: c)
  case Nil
  show ?case by simp
next
  case (Cons x rest)
  obtain c1 h where il: "innerLoop x (c, False) rest = (c1, h)"
    by (cases "innerLoop x (c, False) rest")
  have inj1: "inj_on fst (set c \<union> set rest)"
    using Cons.prems by (auto elim: inj_on_subset)
  from innerLoop_result [OF inj1, of x False] il
  have c1: "set c1 = set c \<union> {y \<in> set rest. hasWeekOverlap (item_weeks (snd x)) (item_weeks (snd y))}"
    and h: "h = (\<exists>y\<in>set rest. hasWeekOverlap (item_weeks (snd x)) (item_weeks (snd y)))"
    and d1: "distinct c \<longrightarrow> distinct c1"
    by auto
  let ?c2 = "if h \<and> \<not> includesItem c1 x then c1 @ [x] else c1"
  have inc: "includesItem c1 x \<longleftrightarrow> x \<in> set c1"
    using Cons.prems c1 by (intro includesItem_iff) (auto elim!: inj_on_subset)
  have s2: "set ?c2 = set c1 \<union> (if h then {x} else {})" using inc by auto
  have d2: "distinct c \<longrightarrow> distinct ?c2" using d1 inc by auto
  have inj2: "inj_on fst (set ?c2 \<union> set rest)"
    using Cons.prems c1 unfolding s2 by (auto elim!: inj_on_subset)
  have dr: "distinct rest" and xr: "x \<notin> set rest" using Cons.prems by auto
  from Cons.IH [OF inj2 dr]
  have ih: "set (outerLoop ?c2 rest) = set ?c2 \<union> {a \<in> set rest. \<exists>b\<in>set rest. b \<noteq> a
                          \<and> hasWeekOverlap (item_weeks (snd a)) (item_weeks (snd b))}"
    and dih: "distinct ?c2 \<longrightarrow> distinct (outerLoop ?c2 rest)"
    by auto
  have ol: "outerLoop c (x # rest) = outerLoop ?c2 rest"
    using il by simp
  define ov :: "ItemRef \<Rightarrow> ItemRef \<Rightarrow> bool"
    where "ov a b = hasWeekOverlap (item_weeks (snd a)) (item_weeks (snd b))" for a b
  have sym: "ov a b \<Longrightarrow> ov b a" for a b
    unfolding ov_def using hasWeekOverlap_sym by blast
  have c1': "set c1 = set c \<union> {y \<in> set rest. ov x y}" and h': "h = (\<exists>y\<in>set rest. ov x y)"
    using c1 h by (simp_all add: ov_def)
  have "set (outerLoop ?c2 rest)
      = (set c1 \<union> (if h then {x} else {})) \<union> {a \<in> set rest. \<exists>b\<in>set rest. b \<noteq> a \<and> ov a b}"
    using ih s2 by (simp add: ov_def)
  also have "\<dots> = set c \<union> {a \<in> insert x (set rest). \<exists>b\<in>insert x (set rest). b \<noteq> a \<and> ov a b}"
    unfolding c1' h' using sym xr by (rule overlap_step_sets)
  finally have "set (outerLoop ?c2 rest) = set c \<union> {a \<in> set (x # rest). \<exists>b\<in>set (x # rest). b \<noteq> a
                          \<and> hasWeekOverlap (item_weeks (snd a)) (item_weeks (snd b))}"
    by (simp add: ov_def)
  then show ?case using ol d2 dih by simp
qed

lemma findWeekConflictingItems_no_week:
  assumes "distinct (map fst items)"
  shows "set (findWeekConflictingItems items None)
           = {a \<in> set items. \<exists>b\<in>set items. fst b \<noteq> fst a
                          \<and> hasWeekOverlap (item_weeks (snd a)) (item_weeks (snd b))}"
    and "distinct (findWeekConflictingItems items None)"
proof -
  have inj: "inj_on fst (set items)" using assms by (simp add: distinct_map)
  have d: "distinct items" using assms by (simp add: distinct_map)
  have ne: "b \<noteq> a \<longleftrightarrow> fst b \<noteq> fst a" if "a \<in> set items" "b \<in> set items" for a b
    using inj that by (auto dest: inj_onD)
  from outerLoop_result [of "[]" items] inj d
  have os: "set (outerLoop [] items) = {a \<in> set items. \<exists>b\<in>set items. b \<noteq> a
                          \<and> hasWeekOverlap (item_weeks (snd a)) (item_weeks (snd b))}"
    and dd: "distinct (outerLoop [] items)"
    by auto
  note os
  moreover have "{a \<in> set items. \<exists>b\<in>set items. b \<noteq> a
                          \<and> hasWeekOverlap (item_weeks (snd a)) (item_weeks (snd b))}
      = {a \<in> set items. \<exists>b\<in>set items. fst b \<noteq> fst a
                          \<and> hasWeekOverlap (item_weeks (snd a)) (item_weeks (snd b))}"
    using ne by blast
  ultimately show "set (findWeekConflictingItems items None)
           = {a \<in> set items. \<exists>b\<in>set items. fst b \<noteq> fst a
                          \<and> hasWeekOverlap (item_weeks (snd a)) (item_weeks (snd b))}"
    by (simp add: findWeekConflictingItems_def truthyNumber_def)
  show "distinct (findWeekConflictingItems items None)"
    using dd by (simp add: findWeekConflictingItems_def truthyNumber_def)
qed

lemma groupLoop_distinct:
  "distinct (map fst tm) \<Longrightarrow> distinct (map fst (groupLoop sw tm xs))"
  by (induction xs arbitrary: tm) (auto simp: Let_def distinct_update)

lemma groupLoop_map_of:
  assumes "\<not> truthyNumber sw"
  shows "map_of (groupLoop sw tm xs) k =
     (if filter (\<lambda>i. timeKey (snd i) = k) xs = [] then map_of tm k
      else Some ((case map_of tm k of Some old \<Rightarrow> old | None \<Rightarrow> [])
                 @ filter (\<lambda>i. timeKey (snd i) = k) xs))"
  using assms
proof (induction xs arbitrary: tm)
  case Nil
  show ?case by simp
next
  case (Cons x xs)
  let ?key = "timeKey (snd x)"
  let ?old = "case map_of tm ?key of Some old \<Rightarrow> old | None \<Rightarrow> []"
  let ?tm = "AList.update ?key (?old @ [x]) tm"
  have step: "groupLoop sw tm (x # xs) = groupLoop sw ?tm xs"
    using Cons.prems by (simp add: Let_def)
  have m: "map_of ?tm k = (if k = ?key then Some (?old @ [x]) else map_of tm k)"
    by (simp add: update_conv')
  show ?case
    unfolding step Cons.IH [OF Cons.prems] m
    by (cases "k = ?key") auto
qed

lemma groups_no_week:
  "(k, items) \<in> set (groupLoop None [] xs)
     \<longleftrightarrow> items = filter (\<lambda>i. timeKey (snd i) = k) xs \<and> items \<noteq> []"
proof -
  have d: "distinct (map fst (groupLoop None [] xs))"
    by (rule groupLoop_distinct) simp
  have "(k, items) \<in> set (groupLoop None [] xs) \<longleftrightarrow> map_of (groupLoop None [] xs) k = Some items"
    using d by simp
  also have "\<dots> \<longleftrightarrow> items = filter (\<lambda>i. timeKey (snd i) = k) xs \<and> items \<noteq> []"
    by (subst groupLoop_map_of) (auto simp: truthyNumber_def)
  finally show ?thesis .
qed

lemma two_elements_length:
  assumes "a \<in> set xs" "b \<in> set xs" "a \<noteq> b"
  shows "length xs > 1"
proof -
  have "{a, b} \<subseteq> set xs" using assms by simp
  then have "card {a, b} \<le> card (set xs)" by (intro card_mono) auto
  moreover have "card {a, b} = 2" using assms by simp
  moreover have "card (set xs) \<le> length xs" by (rule card_length)
  ultimately show ?thesis by linarith
qed

lemma distinct_fst_enumerate: "distinct (map fst (enumerate n xs))"
  by (simp add: map_fst_enumerate)

lemma group_conflict_set:
  assumes g: "(k, items) \<in> set (groupLoop None [] (enumerate 0 sched))"
  shows "set (findWeekConflictingItems items None)
           = {a \<in> set (enumerate 0 sched). timeKey (snd a) = k \<and> overlapsPeer sched a}"
    and "distinct (findWeekConflictingItems items None)"
    and "set (findWeekConflictingItems items None) \<subseteq> set items"
proof -
  let ?E = "enumerate 0 sched"
  have items: "items = filter (\<lambda>i. timeKey (snd i) = k) ?E"
    using g by (simp add: groups_no_week)
  have si: "set items = {b \<in> set ?E. timeKey (snd b) = k}"
    unfolding items by simp
  have d: "distinct (map fst items)"
    unfolding items by (rule distinct_map_filter) (rule distinct_fst_enumerate)
  note f = findWeekConflictingItems_no_week [OF d]
  show "distinct (findWeekConflictingItems items None)" by (rule f(2))
  show "set (findWeekConflictingItems items None) \<subseteq> set items"
    unfolding f(1) by blast
  have "{a \<in> set items. \<exists>b\<in>set items. fst b \<noteq> fst a
            \<and> hasWeekOverlap (item_weeks (snd a)) (item_weeks (snd b))}
      = {a \<in> set ?E. timeKey (snd a) = k \<and> overlapsPeer sched a}"
  proof (rule set_eqI)
    fix a
    show "a \<in> {a \<in> set items. \<exists>b\<in>set items. fst b \<noteq> fst a
            \<and> hasWeekOverlap (item_weeks (snd a)) (item_weeks (snd b))}
      \<longleftrightarrow> a \<in> {a \<in> set ?E. timeKey (snd a) = k \<and> overlapsPeer sched a}"
    proof (cases "a \<in> set ?E \<and> timeKey (snd a) = k")
      case False
      then show ?thesis unfolding si by blast
    next
      case True
      have "(\<exists>b\<in>set items. fst b \<noteq> fst a
            \<and> hasWeekOverlap (item_weeks (snd a)) (item_weeks (snd b)))
          \<longleftrightarrow> (\<exists>b\<in>set ?E. timeKey (snd b) = timeKey (snd a) \<and> fst b \<noteq> fst a
            \<and> hasWeekOverlap (item_weeks (snd a)) (item_weeks (snd b)))"
      proof
        assume "\<exists>b\<in>set items. fst b \<noteq> fst a
            \<and> hasWeekOverlap (item_weeks (snd a)) (item_weeks (snd b))"
        then obtain b where "b \<in> set items" "fst b \<noteq> fst a"
            "hasWeekOverlap (item_weeks (snd a)) (item_weeks (snd b))" by blast
        moreover from this have "b \<in> set ?E" "timeKey (snd b) = timeKey (snd a)"
          using True unfolding si by simp_all
        ultimately show "\<exists>b\<in>set ?E. timeKey (snd b) = timeKey (snd a) \<and> fst b \<noteq> fst a
            \<and> hasWeekOverlap (item_weeks (snd a)) (item_weeks (snd b))" by blast
      next
        assume "\<exists>b\<in>set ?E. timeKey (snd b) = timeKey (snd a) \<and> fst b \<noteq> fst a
            \<and> hasWeekOverlap (item_weeks (snd a)) (item_weeks (snd b))"
        then obtain b where "b \<in> set ?E" "timeKey (snd b) = timeKey (snd a)" "fst b \<noteq> fst a"
            "hasWeekOverlap (item_weeks (snd a)) (item_weeks (snd b))" by blast
        moreover from this have "b \<in> set items"
          using True unfolding si by simp
        ultimately show "\<exists>b\<in>set items. fst b \<noteq> fst a
            \<and> hasWeekOverlap (item_weeks (snd a)) (item_weeks (snd b))" by blast
      qed
      also have "\<dots> \<longleftrightarrow> overlapsPeer sched a"
        unfolding overlapsPeer_def timeKey_eq_iff by blast
      finally show ?thesis using True unfolding si by simp
    qed
  qed
  then show "set (findWeekConflictingItems items None)
           = {a \<in> set (enumerate 0 sched). timeKey (snd a) = k \<and> overlapsPeer sched a}"
    using f(1) by simp
qed

lemma overlapsPeer_peer:
  assumes "a \<in> set (enumerate 0 sched)" "overlapsPeer sched a"
  shows "\<exists>b\<in>set (enumerate 0 sched). b \<noteq> a \<and> timeKey (snd b) = timeKey (snd a)
            \<and> overlapsPeer sched b"
proof -
  obtain b where b: "b \<in> set (enumerate 0 sched)" "fst b \<noteq> fst a"
      "item_dayOfWeek (snd b) = item_dayOfWeek (snd a)" "timeSlotId (snd b) = timeSlotId (snd a)"
      "hasWeekOverlap (item_weeks (snd a)) (item_weeks (snd b))"
    using assms(2) unfolding overlapsPeer_def by blast
  have "hasWeekOverlap (item_weeks (snd b)) (item_weeks (snd a))"
    using b(5) hasWeekOverlap_sym by blast
  then have "overlapsPeer sched b"
    unfolding overlapsPeer_def using assms(1) b by metis
  moreover have "b \<noteq> a" using b(2) by auto
  moreover have "timeKey (snd b) = timeKey (snd a)" using b(3,4) by (simp add: timeKey_eq_iff)
  ultimately show ?thesis using b(1) by blast
qed

lemma group_conflict_nonempty:
  assumes g: "(k, items) \<in> set (groupLoop None [] (enumerate 0 sched))"
    and ne: "findWeekConflictingItems items None \<noteq> []"
  shows "length (findWeekConflictingItems items None) > 1" and "length items > 1"
proof -
  let ?F = "findWeekConflictingItems items None"
  note s = group_conflict_set [OF g]
  obtain a where a: "a \<in> set ?F" using ne by (meson last_in_set)
  then have a': "a \<in> set (enumerate 0 sched)" "timeKey (snd a) = k" "overlapsPeer sched a"
    using s(1) by auto
  obtain b where b: "b \<in> set (enumerate 0 sched)" "b \<noteq> a" "timeKey (snd b) = timeKey (snd a)"
      "overlapsPeer sched b"
    using overlapsPeer_peer [OF a'(1,3)] by blast
  then have bF: "b \<in> set ?F" using s(1) a'(2) by simp
  have ab: "a \<noteq> b" using b(2) by simp
  show "length ?F > 1" using a bF ab by (rule two_elements_length)
  have "a \<in> set items" "b \<in> set items" using a bF s(3) by auto
  then show "length items > 1" using ab by (rule two_elements_length)
qed

lemma conflictOfGroup_no_week:
  assumes g: "(k, items) \<in> set (groupLoop None [] (enumerate 0 sched))"
  shows "conflictOfGroup tss None (k, items) =
     (if findWeekConflictingItems items None \<noteq> []
      then [\<lparr>conflict_type = [116, 105, 109, 101],
             conflict_message = conflictMessage tss None k,
             conflict_items = findWeekConflictingItems items None\<rparr>]
      else [])"
proof (cases "findWeekConflictingItems items None = []")
  case True
  then show ?thesis by (simp add: conflictOfGroup_def Let_def)
next
  case False
  then show ?thesis using group_conflict_nonempty [OF g False]
    by (simp add: conflictOfGroup_def Let_def)
qed

lemma conflict_in_detect:
  "c \<in> set (detectTimeConflicts tss sched None) \<longleftrightarrow>
     (\<exists>k items. (k, items) \<in> set (groupLoop None [] (enumerate 0 sched))
        \<and> findWeekConflictingItems items None \<noteq> []
        \<and> c = \<lparr>conflict_type = [116, 105, 109, 101],
                 conflict_message = conflictMessage tss None k,
                 conflict_items = findWeekConflictingItems items None\<rparr>)"
proof
  assume "c \<in> set (detectTimeConflicts tss sched None)"
  then obtain g where g: "g \<in> set (groupLoop None [] (enumerate 0 sched))"
      "c \<in> set (conflictOfGroup tss None g)"
    by (auto simp: detectTimeConflicts_def)
  obtain k items where ki: "g = (k, items)" by (cases g)
  show "\<exists>k items. (k, items) \<in> set (groupLoop None [] (enumerate 0 sched))
        \<and> findWeekConflictingItems items None \<noteq> []
        \<and> c = \<lparr>conflict_type = [116, 105, 109, 101],
                 conflict_message = conflictMessage tss None k,
                 conflict_items = findWeekConflictingItems items None\<rparr>"
    using g conflictOfGroup_no_week [of k items sched tss] unfolding ki
    by (intro exI [of _ k] exI [of _ items]) (auto split: if_splits)
next
  assume "\<exists>k items. (k, items) \<in> set (groupLoop None [] (enumerate 0 sched))
        \<and> findWeekConflictingItems items None \<noteq> []
        \<and> c = \<lparr>conflict_type = [116, 105, 109, 101],
                 conflict_message = conflictMessage tss None k,
                 conflict_items = findWeekConflictingItems items None\<rparr>"
  then obtain k items where g: "(k, items) \<in> set (groupLoop None [] (enumerate 0 sched))"
      and ne: "findWeekConflictingItems items None \<noteq> []"
      and c: "c = \<lparr>conflict_type = [116, 105, 109, 101],
                 conflict_message = conflictMessage tss None k,
                 conflict_items = findWeekConflictingItems items None\<rparr>"
    by blast
  have "c \<in> set (conflictOfGroup tss None (k, items))"
    using conflictOfGroup_no_week [OF g, of tss] ne c by simp
  then show "c \<in> set (detectTimeConflicts tss sched None)"
    using g unfolding detectTimeConflicts_def by (simp del: split_paired_Ex) blast
qed

lemma detect_conflict_items:
  assumes "c \<in> set (detectTimeConflicts tss sched None)"
  shows "\<exists>d t. set (conflict_items c)
            = {a \<in> set (enumerate 0 sched).
                 item_dayOfWeek (snd a) = d \<and> timeSlotId (snd a) = t \<and> overlapsPeer sched a}
          \<and> distinct (conflict_items c) \<and> 1 < length (conflict_items c)"
proof -
  obtain k items where g: "(k, items) \<in> set (groupLoop None [] (enumerate 0 sched))"
      and ne: "findWeekConflictingItems items None \<noteq> []"
      and c: "conflict_items c = findWeekConflictingItems items None"
    using assms unfolding conflict_in_detect by auto
  note s = group_conflict_set [OF g]
  obtain a0 where a0: "a0 \<in> set (findWeekConflictingItems items None)"
    using ne by (meson last_in_set)
  then have k: "k = timeKey (snd a0)" using s(1) by simp
  have "set (conflict_items c)
            = {a \<in> set (enumerate 0 sched).
                 item_dayOfWeek (snd a) = item_dayOfWeek (snd a0)
               \<and> timeSlotId (snd a) = timeSlotId (snd a0) \<and> overlapsPeer sched a}"
    unfolding c s(1) k timeKey_eq_iff by blast
  moreover have "distinct (conflict_items c)" unfolding c by (rule s(2))
  moreover have "1 < length (conflict_items c)"
    unfolding c by (rule group_conflict_nonempty(1) [OF g ne])
  ultimately show ?thesis by blast
qed

lemma detect_reports:
  assumes a: "a \<in> set (enumerate 0 sched)" and p: "overlapsPeer sched a"
  shows "\<exists>c\<in>set (detectTimeConflicts tss sched None). a \<in> set (conflict_items c)"
proof -
  let ?k = "timeKey (snd a)"
  let ?items = "filter (\<lambda>i. timeKey (snd i) = ?k) (enumerate 0 sched)"
  have "a \<in> set ?items" using a by simp
  then have "?items \<noteq> []" by (metis empty_iff empty_set)
  then have g: "(?k, ?items) \<in> set (groupLoop None [] (enumerate 0 sched))"
    by (simp add: groups_no_week)
  have aF: "a \<in> set (findWeekConflictingItems ?items None)"
    unfolding group_conflict_set(1) [OF g] using a p by simp
  then have ne: "findWeekConflictingItems ?items None \<noteq> []" by (metis empty_iff empty_set)
  let ?c = "\<lparr>conflict_type = [116, 105, 109, 101],
              conflict_message = conflictMessage tss None ?k,
              conflict_items = findWeekConflictingItems ?items None\<rparr>"
  have "?c \<in> set (detectTimeConflicts tss sched None)"
    unfolding conflict_in_detect using g ne by blast
  moreover have "a \<in> set (conflict_items ?c)" using aF by simp
  ultimately show ?thesis by blast
qed

lemma length_concat_filter:
  assumes "\<forall>x\<in>set xs. length (f x) = (if P x then 1 else 0)"
  shows "length (concat (map f xs)) = length (filter P xs)"
  using assms by (induction xs) auto

lemma detect_count:
  "length (detectTimeConflicts tss sched None)
     = card ((\<lambda>a. (item_dayOfWeek (snd a), timeSlotId (snd a)))
               ` {a \<in> set (enumerate 0 sched). overlapsPeer sched a})"
proof -
  let ?E = "enumerate 0 sched"
  let ?G = "groupLoop None [] ?E"
  let ?P = "\<lambda>g. findWeekConflictingItems (snd g) None \<noteq> []"
  let ?S = "{a \<in> set ?E. overlapsPeer sched a}"
  let ?keyf = "\<lambda>(d, t). toString d @ [45] @ t"
  have dk: "distinct (map fst ?G)" by (rule groupLoop_distinct) simp
  then have dG: "distinct ?G" and inj: "inj_on fst (set ?G)"
    by (simp_all add: distinct_map)
  have len: "\<forall>g\<in>set ?G. length (conflictOfGroup tss None g) = (if ?P g then 1 else 0)"
  proof
    fix g assume g: "g \<in> set ?G"
    obtain k items where ki: "g = (k, items)" by (cases g)
    show "length (conflictOfGroup tss None g) = (if ?P g then 1 else 0)"
      using conflictOfGroup_no_week [of k items sched tss] g unfolding ki by simp
  qed
  have "length (detectTimeConflicts tss sched None) = length (filter ?P ?G)"
    unfolding detectTimeConflicts_def using len by (rule length_concat_filter)
  also have "\<dots> = card (set (filter ?P ?G))"
    using dG distinct_card [of "filter ?P ?G"] by (simp only: distinct_filter)
  also have "\<dots> = card (fst ` set (filter ?P ?G))"
    by (rule card_image [symmetric]) (rule inj_on_subset [OF inj], simp)
  also have "fst ` set (filter ?P ?G) = (\<lambda>a. timeKey (snd a)) ` ?S"
  proof (rule set_eqI)
    fix k
    show "k \<in> fst ` set (filter ?P ?G) \<longleftrightarrow> k \<in> (\<lambda>a. timeKey (snd a)) ` ?S"
    proof
      assume "k \<in> fst ` set (filter ?P ?G)"
      then obtain items where g: "(k, items) \<in> set ?G"
          and ne: "findWeekConflictingItems items None \<noteq> []"
        by auto
      obtain a where "a \<in> set (findWeekConflictingItems items None)"
        using ne by (meson last_in_set)
      then have "a \<in> set ?E" "timeKey (snd a) = k" "overlapsPeer sched a"
        unfolding group_conflict_set(1) [OF g] by simp_all
      then show "k \<in> (\<lambda>a. timeKey (snd a)) ` ?S" by blast
    next
      assume "k \<in> (\<lambda>a. timeKey (snd a)) ` ?S"
      then obtain a where a: "a \<in> set ?E" "overlapsPeer sched a" "k = timeKey (snd a)"
        by blast
      let ?items = "filter (\<lambda>i. timeKey (snd i) = k) ?E"
      have "a \<in> set ?items" using a by simp
      then have "?items \<noteq> []" by (metis empty_iff empty_set)
      then have g: "(k, ?items) \<in> set ?G" by (simp add: groups_no_week)
      have "a \<in> set (findWeekConflictingItems ?items None)"
        unfolding group_conflict_set(1) [OF g] using a by simp
      then have "findWeekConflictingItems ?items None \<noteq> []" by (metis empty_iff empty_set)
      then have "(k, ?items) \<in> set (filter ?P ?G)" using g by simp
      then show "k \<in> fst ` set (filter ?P ?G)" by (metis fst_conv image_eqI)
    qed
  qed
  also have "(\<lambda>a. timeKey (snd a)) ` ?S
      = ?keyf ` ((\<lambda>a. (item_dayOfWeek (snd a), timeSlotId (snd a))) ` ?S)"
    by (simp add: image_image timeKey_def)
  also have "card \<dots> = card ((\<lambda>a. (item_dayOfWeek (snd a), timeSlotId (snd a))) ` ?S)"
  proof (rule card_image)
    show "inj_on ?keyf ((\<lambda>a. (item_dayOfWeek (snd a), timeSlotId (snd a))) ` ?S)"
    proof (rule inj_onI)
      fix p q :: "int \<times> jstring"
      assume "?keyf p = ?keyf q"
      then have "toString (fst p) @ 45 # snd p = toString (fst q) @ 45 # snd q"
        by (simp add: case_prod_beta)
      then have "fst p = fst q \<and> snd p = snd q" by (rule toString_sep_inj)
      then show "p = q" by (simp add: prod_eq_iff)
    qed
  qed
  finally show ?thesis .
qed

lemma hasWeekOverlap_iff:
  "hasWeekOverlap w1 w2 \<longleftrightarrow>
     (w1 = None \<or> w2 = None \<or> w1 = Some [] \<or> w2 = Some [] \<or>
      (\<exists>l1 l2 r1 r2. w1 = Some l1 \<and> w2 = Some l2 \<and> r1 \<in> set l1 \<and> r2 \<in> set l2
         \<and> start r1 \<le> end' r2 \<and> start r2 \<le> end' r1))"
  by (cases w1; cases w2) (auto simp: hasWeekOverlap_def list_ex_iff)

text \<open>
  Claim C1. With no target week, the items of a schedule are grouped by day and period, and
  two items overlap when either has no week ranges (absent or empty) or some range of one
  meets some range of the other. Every reported conflict lists exactly the items of one
  group that overlap at least one other item of that group, each once; every such item is
  in a reported conflict; and the number of conflicts is the number of groups in which some
  pair overlaps, so a group without an overlapping pair yields no conflict. Two courses on
  day 1, period \<open>5\<close> with the weeks 1 to 6 and 7 to 8 yield no conflict; with the weeks 1 to 8
  and 6 to 10 they yield one conflict that holds both items.
\<close>

theorem conflict_detection_no_week:
  "(\<forall>c\<in>set (detectTimeConflicts tss sched None).
      \<exists>d t. set (conflict_items c)
               = {a \<in> set (enumerate 0 sched).
                    item_dayOfWeek (snd a) = d \<and> timeSlotId (snd a) = t \<and> overlapsPeer sched a}
          \<and> distinct (conflict_items c) \<and> 1 < length (conflict_items c))
   \<and> (\<forall>a\<in>set (enumerate 0 sched).
        overlapsPeer sched a \<longrightarrow>
        (\<exists>c\<in>set (detectTimeConflicts tss sched None). a \<in> set (conflict_items c)))
   \<and> length (detectTimeConflicts tss sched None)
       = card ((\<lambda>a. (item_dayOfWeek (snd a), timeSlotId (snd a)))
                 ` {a \<in> set (enumerate 0 sched). overlapsPeer sched a})
   \<and> (hasWeekOverlap w1 w2 \<longleftrightarrow>
        (w1 = None \<or> w2 = None \<or> w1 = Some [] \<or> w2 = Some [] \<or>
         (\<exists>l1 l2 r1 r2. w1 = Some l1 \<and> w2 = Some l2 \<and> r1 \<in> set l1 \<and> r2 \<in> set l2
            \<and> start r1 \<le> end' r2 \<and> start r2 \<le> end' r1)))
   \<and> conflicts (generateSchedule
        [exampleCourse [65] (Some [\<lparr>start = 1, end' = 6\<rparr>]) None None,
         exampleCourse [66] (Some [\<lparr>start = 7, end' = 8\<rparr>]) None None] [] noOptions) = []
   \<and> map (\<lambda>c. map fst (conflict_items c)) (conflicts (generateSchedule
        [exampleCourse [65] (Some [\<lparr>start = 1, end' = 8\<rparr>]) None None,
         exampleCourse [66] (Some [\<lparr>start = 6, end' = 10\<rparr>]) None None] [] noOptions)) = [[1, 0]]"
proof (intro conjI)
  show "\<forall>c\<in>set (detectTimeConflicts tss sched None).
      \<exists>d t. set (conflict_items c)
               = {a \<in> set (enumerate 0 sched).
                    item_dayOfWeek (snd a) = d \<and> timeSlotId (snd a) = t \<and> overlapsPeer sched a}
          \<and> distinct (conflict_items c) \<and> 1 < length (conflict_items c)"
    using detect_conflict_items by blast
  show "\<forall>a\<in>set (enumerate 0 sched).
        overlapsPeer sched a \<longrightarrow>
        (\<exists>c\<in>set (detectTimeConflicts tss sched None). a \<in> set (conflict_items c))"
    using detect_reports by blast
  show "length (detectTimeConflicts tss sched None)
       = card ((\<lambda>a. (item_dayOfWeek (snd a), timeSlotId (snd a)))
                 ` {a \<in> set (enumerate 0 sched). overlapsPeer sched a})"
    by (rule detect_count)
  show "hasWeekOverlap w1 w2 \<longleftrightarrow>
        (w1 = None \<or> w2 = None \<or> w1 = Some [] \<or> w2 = Some [] \<or>
         (\<exists>l1 l2 r1 r2. w1 = Some l1 \<and> w2 = Some l2 \<and> r1 \<in> set l1 \<and> r2 \<in> set l2
            \<and> start r1 \<le> end' r2 \<and> start r2 \<le> end' r1))"
    by (rule hasWeekOverlap_iff)
  show "conflicts (generateSchedule
        [exampleCourse [65] (Some [\<lparr>start = 1, end' = 6\<rparr>]) None None,
         exampleCourse [66] (Some [\<lparr>start = 7, end' = 8\<rparr>]) None None] [] noOptions) = []"
    by (simp add: sched_eval)
  show "map (\<lambda>c. map fst (conflict_items c)) (conflicts (generateSchedule
        [exampleCourse [65] (Some [\<lparr>start = 1, end' = 8\<rparr>]) None None,
         exampleCourse [66] (Some [\<lparr>start = 6, end' = 10\<rparr>]) None None] [] noOptions)) = [[1, 0]]"
    by (simp add: sched_eval)
qed

theorem conflict_detection_no_week_witness:
  "overlapsPeer [exampleItem [65] (Some [\<lparr>start = 1, end' = 8\<rparr>]),
                 exampleItem [66] (Some [\<lparr>start = 6, end' = 10\<rparr>])]
     (0, exampleItem [65] (Some [\<lparr>start = 1, end' = 8\<rparr>]))
   \<and> (\<exists>c\<in>set (detectTimeConflicts []
          [exampleItem [65] (Some [\<lparr>start = 1, end' = 8\<rparr>]),
           exampleItem [66] (Some [\<lparr>start = 6, end' = 10\<rparr>])] None).
        (0, exampleItem [65] (Some [\<lparr>start = 1, end' = 8\<rparr>])) \<in> set (conflict_items c))"
proof -
  let ?A = "exampleItem [65] (Some [\<lparr>start = 1, end' = 8\<rparr>])"
  let ?S = "[?A, exampleItem [66] (Some [\<lparr>start = 6, end' = 10\<rparr>])]"
  have m: "(0, ?A) \<in> set (enumerate 0 ?S)" by simp
  have p: "overlapsPeer ?S (0, ?A)"
    by (simp add: overlapsPeer_def exampleItem_def hasWeekOverlap_def)
  have "\<forall>a\<in>set (enumerate 0 ?S).
        overlapsPeer ?S a \<longrightarrow>
        (\<exists>c\<in>set (detectTimeConflicts [] ?S None). a \<in> set (conflict_items c))"
    using conflict_detection_no_week [of "[]" ?S] by blast
  then show ?thesis using m p by blast
qed

section \<open>Properties of the parser\<close>

lemma numberValue_small: "n \<le> 2 ^ 53 \<Longrightarrow> numberValue n = n"
  by (simp add: numberValue_def)

lemma roundNumber_small: "0 \<le> i \<Longrightarrow> i \<le> 2 ^ 53 \<Longrightarrow> roundNumber i = i"
proof -
  assume a: "0 \<le> i" "i \<le> 2 ^ 53"
  then have "nat i \<le> 2 ^ 53" by simp
  then have "numberValue (nat i) = nat i" by (rule numberValue_small)
  then show ?thesis using a by (simp add: roundNumber_def)
qed

lemma bitLength_eq: "2 ^ k \<le> n \<Longrightarrow> n < 2 ^ Suc k \<Longrightarrow> bitLength n = Suc k"
proof (induction k arbitrary: n)
  case 0
  then have "n = 1" by simp
  then show ?case by (simp add: bitLength.simps [of "Suc 0"] bitLength.simps [of 0])
next
  case (Suc k)
  have "2 ^ k \<le> n div 2" "n div 2 < 2 ^ Suc k" using Suc.prems by auto
  then have "bitLength (n div 2) = Suc k" by (rule Suc.IH)
  moreover have "n \<noteq> 0" using Suc.prems by auto
  ultimately show ?case by (subst bitLength.simps) simp
qed

lemma numberValue_first_gap: "numberValue 9007199254740993 = 9007199254740992"
proof -
  have "bitLength 9007199254740993 = Suc 53" by (rule bitLength_eq) simp_all
  then show ?thesis by (simp add: numberValue_def Let_def)
qed

lemma roundNumber_first_gap: "roundNumber (9007199254740992 + 1) = 9007199254740992"
  using numberValue_first_gap by (simp add: roundNumber_def)

lemma slotsLoop_small:
  assumes "0 \<le> i" "en < 2 ^ 53"
    and "i \<le> en \<longrightarrow> int (length slots) + (en - i + 1) \<le> 4294967295"
  shows "slotsLoop slots i en = Inr (slots @ map toString [i..en])"
  using assms
proof (induction "nat (en + 1 - i)" arbitrary: slots i)
  case 0
  then have "\<not> i \<le> en" by simp
  then show ?case by (subst slotsLoop.simps) simp
next
  case (Suc n)
  have le: "i \<le> en" using Suc.hyps(2) by simp
  have len: "\<not> 4294967295 \<le> length slots" using Suc.prems(3) le by simp
  have r: "roundNumber (i + 1) = i + 1"
    using Suc.prems(1,2) le by (intro roundNumber_small) simp_all
  have "slotsLoop (slots @ [toString i]) (i + 1) en
          = Inr ((slots @ [toString i]) @ map toString [i + 1..en])"
  proof (rule Suc.hyps(1))
    show "n = nat (en + 1 - (i + 1))" using Suc.hyps(2) by simp
    show "0 \<le> i + 1" using Suc.prems(1) by simp
    show "en < 2 ^ 53" by (rule Suc.prems(2))
    show "i + 1 \<le> en \<longrightarrow> int (length (slots @ [toString i])) + (en - (i + 1) + 1) \<le> 4294967295"
      using Suc.prems(3) le by simp
  qed
  then show ?case using le len r
    by (subst slotsLoop.simps) (simp add: upto_rec1 [of i en])
qed

lemma slotsLoop_nil_small:
  "0 \<le> i \<Longrightarrow> en < 9007199254740992 \<Longrightarrow> en < i + 4294967295 \<Longrightarrow>
     slotsLoop [] i en = Inr (map toString [i..en])"
  using slotsLoop_small [of i en "[]"] by simp

lemma slotsLoop_stall:
  assumes "i \<le> en" "roundNumber (i + 1) = i"
  shows "slotsLoop slots i en = Inl RangeError"
proof (induction "4294967295 - length slots" arbitrary: slots)
  case 0
  then show ?case using assms(1) by (subst slotsLoop.simps) simp
next
  case (Suc n)
  have "n = 4294967295 - length (slots @ [toString i])" using Suc.hyps(2) by simp
  then have "slotsLoop (slots @ [toString i]) i en = Inl RangeError" by (rule Suc.hyps(1))
  then show ?case using assms by (subst slotsLoop.simps) simp
qed

lemma slotsLoop_overflow:
  assumes "0 \<le> i" "i \<le> en" "en < 2 ^ 53"
    and "4294967295 < int (length slots) + (en - i + 1)"
  shows "slotsLoop slots i en = Inl RangeError"
  using assms
proof (induction "4294967295 - length slots" arbitrary: slots i)
  case 0
  then show ?case by (subst slotsLoop.simps) simp
next
  case (Suc n)
  have len: "\<not> 4294967295 \<le> length slots" using Suc.hyps(2) by simp
  have lt: "i + 1 \<le> en" using Suc.prems(4) len by simp
  have r: "roundNumber (i + 1) = i + 1"
    using Suc.prems(1,3) lt by (intro roundNumber_small) simp_all
  have "slotsLoop (slots @ [toString i]) (i + 1) en = Inl RangeError"
  proof (rule Suc.hyps(1))
    show "n = 4294967295 - length (slots @ [toString i])" using Suc.hyps(2) by simp
    show "0 \<le> i + 1" using Suc.prems(1) by simp
    show "i + 1 \<le> en" by (rule lt)
    show "en < 2 ^ 53" by (rule Suc.prems(3))
    show "4294967295 < int (length (slots @ [toString i])) + (en - (i + 1) + 1)"
      using Suc.prems(4) by simp
  qed
  then show ?case using Suc.prems(2) len r by (subst slotsLoop.simps) simp
qed

lemma foldl_digits_nonneg:
  "list_all isDigit ds \<Longrightarrow> 0 \<le> acc \<Longrightarrow> 0 \<le> foldl (\<lambda>acc c. acc * 10 + (int c - 48)) acc ds"
proof (induction ds arbitrary: acc)
  case Nil
  then show ?case by simp
next
  case (Cons c ds)
  have "48 \<le> c" using Cons.prems(1) by (simp add: isDigit_def)
  then have "0 \<le> acc * 10 + (int c - 48)" using Cons.prems(2) by simp
  then show ?case using Cons.IH [of "acc * 10 + (int c - 48)"] Cons.prems(1) by simp
qed

lemma digitsValue_nonneg: "list_all isDigit ds \<Longrightarrow> 0 \<le> digitsValue ds"
  unfolding digitsValue_def by (rule foldl_digits_nonneg) simp_all

lemma parseInt_digits:
  assumes "list_all isDigit ds"
  shows "parseInt ds = int (numberValue (nat (digitsValue ds)))"
proof -
  have t: "takeWhile isDigit ds = ds" using assms by (simp add: list_all_iff)
  show ?thesis unfolding parseInt_def t by (rule refl)
qed

lemma parseInt_exact:
  assumes "list_all isDigit ds" "digitsValue ds \<le> 2 ^ 53"
  shows "parseInt ds = digitsValue ds"
proof -
  have "nat (digitsValue ds) \<le> 2 ^ 53" using assms(2) by simp
  then have "numberValue (nat (digitsValue ds)) = nat (digitsValue ds)" by (rule numberValue_small)
  then show ?thesis
    using parseInt_digits [OF assms(1)] digitsValue_nonneg [OF assms(1)] by simp
qed

lemma matchDigits_run:
  assumes "ds \<noteq> []" "list_all isDigit ds" "\<not> isDigit c"
  shows "matchDigits (ds @ c # rest) = Some (ds, c # rest)"
proof -
  have a: "\<forall>x\<in>set ds. isDigit x" using assms(2) by (simp add: list_all_iff)
  have "takeWhile isDigit (ds @ c # rest) = ds"
    using a assms(3) by (simp add: takeWhile_tail)
  moreover have "dropWhile isDigit (ds @ c # rest) = c # rest"
    using a assms(3) by (simp add: dropWhile_append)
  ultimately show ?thesis using assms(1) by (simp add: matchDigits_def)
qed

lemma matchDigits_Some:
  assumes "matchDigits s = Some (ds, r)"
  shows "s = ds @ r \<and> ds \<noteq> [] \<and> list_all isDigit ds"
proof -
  have "ds = takeWhile isDigit s" "r = dropWhile isDigit s" "ds \<noteq> []"
    using assms by (auto simp: matchDigits_def Let_def split: if_splits)
  then show ?thesis
    by (auto simp: list_all_iff dest: set_takeWhileD)
qed

lemma matchChar_Some: "matchChar c s = Some r \<longleftrightarrow> s = c # r"
  by (cases s) (auto simp: matchChar_def)

lemma not_digit_33410: "\<not> isDigit 33410"
  by (simp add: isDigit_def)

lemma matchPeriod_range:
  assumes "d1 \<noteq> []" "list_all isDigit d1" "d2 \<noteq> []" "list_all isDigit d2"
  shows "matchPeriod (31532 # d1 @ 45 # d2 @ 33410 # rest) = Some ((d1, Some d2), rest)"
  using matchDigits_run [OF assms(1,2) not_digit_45, of "d2 @ 33410 # rest"]
        matchDigits_run [OF assms(3,4) not_digit_33410, of rest]
  by (simp add: matchPeriod_def matchChar_def orElse_def)

lemma matchPeriod_single:
  assumes "d1 \<noteq> []" "list_all isDigit d1"
  shows "matchPeriod (31532 # d1 @ 33410 # rest) = Some ((d1, None), rest)"
  using matchDigits_run [OF assms(1,2) not_digit_33410, of rest]
  by (simp add: matchPeriod_def matchChar_def orElse_def)

lemma matchPeriod_Some:
  assumes "matchPeriod s = Some ((g1, g2), rest)"
  shows "\<exists>p. s = p @ rest \<and> isPeriodText p"
proof -
  obtain s1 where s1: "s = 31532 # s1"
    using assms by (cases "matchChar 31532 s") (auto simp: matchPeriod_def matchChar_Some)
  obtain d1 s2 where d1: "matchDigits s1 = Some (d1, s2)"
    using assms s1 by (cases "matchDigits s1") (auto simp: matchPeriod_def matchChar_def)
  note m1 = matchDigits_Some [OF d1]
  let ?with = "matchChar 45 s2 \<bind> (\<lambda>s3. matchDigits s3 \<bind> (\<lambda>(g2, s4).
                 matchChar 33410 s4 \<bind> (\<lambda>s5. Some ((d1, Some g2), s5))))"
  let ?without = "matchChar 33410 s2 \<bind> (\<lambda>s5. Some ((d1, None :: jstring option), s5))"
  have mp: "matchPeriod s = orElse ?with ?without"
    using s1 d1 by (simp add: matchPeriod_def matchChar_def)
  show ?thesis
  proof (cases ?with)
    case (Some r)
    then obtain s3 d2 s4 s5 where w: "s2 = 45 # s3" "matchDigits s3 = Some (d2, s4)" "s4 = 33410 # s5"
        "r = ((d1, Some d2), s5)"
      by (auto simp: bind_eq_Some_conv matchChar_Some)
    note m2 = matchDigits_Some [OF w(2)]
    have "rest = s5" using assms mp Some w(4) by (simp add: orElse_def)
    then have "s = ([31532] @ d1 @ [45] @ d2 @ [33410]) @ rest"
      using s1 m1 m2 w by simp
    moreover have "isPeriodText ([31532] @ d1 @ [45] @ d2 @ [33410])"
      unfolding isPeriodText_def using m1 m2 by blast
    ultimately show ?thesis by blast
  next
    case None
    then have "?without = Some ((g1, g2), rest)" using assms mp by (simp add: orElse_def)
    then have "s2 = 33410 # rest" by (auto simp: bind_eq_Some_conv matchChar_Some)
    then have "s = ([31532] @ d1 @ [33410]) @ rest" using s1 m1 by simp
    moreover have "isPeriodText ([31532] @ d1 @ [33410])"
      unfolding isPeriodText_def using m1 by blast
    ultimately show ?thesis by blast
  qed
qed

lemma searchFrom_Some:
  assumes "searchFrom m s = Some (pre, r)"
  shows "\<exists>suf. s = pre @ suf \<and> m suf = Some r"
  using assms
proof (induction s arbitrary: pre)
  case Nil
  then show ?case by auto
next
  case (Cons c cs)
  show ?case
  proof (cases "m (c # cs)")
    case (Some r')
    then show ?thesis using Cons.prems by auto
  next
    case None
    then obtain pre' where p: "searchFrom m cs = Some (pre', r)" "pre = c # pre'"
      using Cons.prems by auto
    from Cons.IH [OF p(1)] show ?thesis using p(2) by auto
  qed
qed


lemma parseTimeSlots_no_match:
  assumes "\<not> containsPeriodText s"
  shows "parseTimeSlots s = Inr []"
proof (cases "searchFrom matchPeriod s")
  case None
  then show ?thesis by (simp add: parseTimeSlots_def)
next
  case (Some x)
  obtain pre g1 g2 rest where x: "x = (pre, ((g1, g2), rest))"
    by (metis prod.exhaust)
  obtain suf where suf: "s = pre @ suf" "matchPeriod suf = Some ((g1, g2), rest)"
    using searchFrom_Some [of matchPeriod s pre "((g1, g2), rest)"] Some x by auto
  obtain p where "suf = p @ rest" "isPeriodText p"
    using matchPeriod_Some [OF suf(2)] by blast
  then have "containsPeriodText s" unfolding containsPeriodText_def using suf(1) by blast
  then show ?thesis using assms by simp
qed

lemma parseTimeSlots_loop_range:
  assumes "d1 \<noteq> []" "list_all isDigit d1" "d2 \<noteq> []" "list_all isDigit d2"
  shows "parseTimeSlots ([31532] @ d1 @ [45] @ d2 @ [33410])
           = slotsLoop [] (parseInt d1) (parseInt d2)"
  using matchPeriod_range [OF assms, of "[]"] by (simp add: parseTimeSlots_def Let_def)

lemma parseTimeSlots_loop_one:
  assumes "d1 \<noteq> []" "list_all isDigit d1"
  shows "parseTimeSlots ([31532] @ d1 @ [33410]) = slotsLoop [] (parseInt d1) (parseInt d1)"
  using matchPeriod_single [OF assms, of "[]"] by (simp add: parseTimeSlots_def Let_def)

lemma parseTimeSlots_range:
  assumes "d1 \<noteq> []" "list_all isDigit d1" "d2 \<noteq> []" "list_all isDigit d2"
    and "digitsValue d1 < 2 ^ 53" "digitsValue d2 < 2 ^ 53"
    and "digitsValue d2 < digitsValue d1 + 4294967295"
  shows "parseTimeSlots ([31532] @ d1 @ [45] @ d2 @ [33410])
           = Inr (map toString [digitsValue d1 .. digitsValue d2])"
proof -
  have p: "parseInt d1 = digitsValue d1" "parseInt d2 = digitsValue d2"
    using assms by (simp_all add: parseInt_exact)
  have "slotsLoop [] (digitsValue d1) (digitsValue d2)
          = Inr ([] @ map toString [digitsValue d1 .. digitsValue d2])"
    using assms(5-7) digitsValue_nonneg [OF assms(2)] by (intro slotsLoop_small) simp_all
  then show ?thesis
    unfolding parseTimeSlots_loop_range [OF assms(1-4)] p by simp
qed

lemma parseTimeSlots_one:
  assumes "d1 \<noteq> []" "list_all isDigit d1" "digitsValue d1 < 2 ^ 53"
  shows "parseTimeSlots ([31532] @ d1 @ [33410]) = Inr [toString (digitsValue d1)]"
proof -
  have p: "parseInt d1 = digitsValue d1"
    using assms by (simp add: parseInt_exact)
  have "slotsLoop [] (digitsValue d1) (digitsValue d1)
          = Inr ([] @ map toString [digitsValue d1 .. digitsValue d1])"
    using assms(3) digitsValue_nonneg [OF assms(2)] by (intro slotsLoop_small) simp_all
  then show ?thesis
    unfolding parseTimeSlots_loop_one [OF assms(1,2)] p by simp
qed

lemma toString_nat_digits:
  "toString (int n) \<noteq> [] \<and> list_all isDigit (toString (int n))
   \<and> digitsValue (toString (int n)) = int n"
  using digitsOf_ne [of n] digitsOf_digits [of _ n] digitsValue_digitsOf [of n]
  by (simp add: toString_def list_all_iff)

lemma isPeriodText_has_marker: "isPeriodText p \<Longrightarrow> 31532 \<in> set p"
  by (auto simp: isPeriodText_def)

lemma containsPeriodText_has_marker: "containsPeriodText s \<Longrightarrow> 31532 \<in> set s"
  using isPeriodText_has_marker by (auto simp: containsPeriodText_def)


lemma parseTimeSlots_too_long:
  "parseTimeSlots [31532, 49, 45, 52, 50, 57, 52, 57, 54, 55, 50, 57, 54, 33410] = Inl RangeError"
proof -
  have d: "[49] \<noteq> []" "list_all isDigit [49]"
      "[52, 50, 57, 52, 57, 54, 55, 50, 57, 54] \<noteq> []"
      "list_all isDigit [52, 50, 57, 52, 57, 54, 55, 50, 57, 54]"
    by (simp_all add: isDigit_def)
  have v: "digitsValue [49] = 1" "digitsValue [52, 50, 57, 52, 57, 54, 55, 50, 57, 54] = 4294967296"
    by (simp_all add: digitsValue_def)
  have p: "parseInt [49] = 1" "parseInt [52, 50, 57, 52, 57, 54, 55, 50, 57, 54] = 4294967296"
    using d v by (simp_all add: parseInt_exact)
  have "slotsLoop [] 1 4294967296 = Inl RangeError"
    by (rule slotsLoop_overflow) simp_all
  then show ?thesis
    using parseTimeSlots_loop_range [OF d] unfolding p by simp
qed

text \<open>
  Claim C7, as stated: for every period text 31532, \<open>a\<close>, 33410 the one string of \<open>a\<close> is
  returned. The numbers of the source are doubles: for the period \<open>9007199254740992 = 2^53\<close> the
  loop starts at \<open>i = 2^53\<close>, where \<open>i++\<close> leaves \<open>i\<close> unchanged, so the condition \<open>i <= end\<close> holds
  for ever and the list grows until a \<open>RangeError\<close> is raised: no list is returned.
\<close>

theorem parseTimeSlots_stalls:
  "parseTimeSlots [31532, 57, 48, 48, 55, 49, 57, 57, 50, 53, 52, 55, 52, 48, 57, 57, 50, 33410]
     = Inl RangeError"
proof -
  let ?d = "[57, 48, 48, 55, 49, 57, 57, 50, 53, 52, 55, 52, 48, 57, 57, 50] :: jstring"
  have d: "?d \<noteq> []" "list_all isDigit ?d" by (simp_all add: isDigit_def)
  have v: "digitsValue ?d = 9007199254740992" by (simp add: digitsValue_def)
  have p: "parseInt ?d = 9007199254740992" using d v by (simp add: parseInt_exact)
  have "slotsLoop [] 9007199254740992 9007199254740992 = Inl RangeError"
    using roundNumber_first_gap by (intro slotsLoop_stall) simp_all
  then show ?thesis
    using parseTimeSlots_loop_one [OF d] unfolding p by simp
qed

text \<open>
  Claim C7, amended. For every period text of the form 31532, \<open>a\<close>, \<open>-\<close>, \<open>b\<close>, 33410 with \<open>a\<close>
  and \<open>b\<close> written in decimal, both below \<open>2^53\<close>, and at most \<open>2^32 - 1\<close> numbers from \<open>a\<close> to \<open>b\<close>
  (the largest length of an array), \<open>parseTimeSlots\<close> returns the decimal strings of
  \<open>a, a + 1, ..., b\<close> in order; for the text 31532, \<open>a\<close>, 33410 with \<open>a\<close> below \<open>2^53\<close> it returns
  the one string of \<open>a\<close>; and for a string that contains no period text it returns the empty
  list. The same holds for digit strings with leading zeros, which denote the numbers they
  are read as.
\<close>

theorem parseTimeSlots_spec:
  "(a < 2 ^ 53 \<and> b < 2 ^ 53 \<and> b < a + 4294967295 \<longrightarrow>
      parseTimeSlots ([31532] @ toString (int a) @ [45] @ toString (int b) @ [33410])
        = Inr (map toString [int a .. int b]))
   \<and> (a < 2 ^ 53 \<longrightarrow>
        parseTimeSlots ([31532] @ toString (int a) @ [33410]) = Inr [toString (int a)])
   \<and> (d1 \<noteq> [] \<and> list_all isDigit d1 \<and> d2 \<noteq> [] \<and> list_all isDigit d2
        \<and> digitsValue d1 < 2 ^ 53 \<and> digitsValue d2 < 2 ^ 53
        \<and> digitsValue d2 < digitsValue d1 + 4294967295 \<longrightarrow>
        parseTimeSlots ([31532] @ d1 @ [45] @ d2 @ [33410])
          = Inr (map toString [digitsValue d1 .. digitsValue d2]))
   \<and> (d1 \<noteq> [] \<and> list_all isDigit d1 \<and> digitsValue d1 < 2 ^ 53 \<longrightarrow>
        parseTimeSlots ([31532] @ d1 @ [33410]) = Inr [toString (digitsValue d1)])
   \<and> (\<not> containsPeriodText s \<longrightarrow> parseTimeSlots s = Inr [])"
proof -
  note na = toString_nat_digits [of a] and nb = toString_nat_digits [of b]
  have "parseTimeSlots ([31532] @ toString (int a) @ [45] @ toString (int b) @ [33410])
     = Inr (map toString [int a .. int b])" if h: "a < 2 ^ 53 \<and> b < 2 ^ 53 \<and> b < a + 4294967295"
  proof -
    have "digitsValue (toString (int a)) < 2 ^ 53" "digitsValue (toString (int b)) < 2 ^ 53"
        "digitsValue (toString (int b)) < digitsValue (toString (int a)) + 4294967295"
      using na nb h by simp_all
    then show ?thesis
      using parseTimeSlots_range [of "toString (int a)" "toString (int b)"] na nb by simp
  qed
  moreover have "parseTimeSlots ([31532] @ toString (int a) @ [33410]) = Inr [toString (int a)]"
    if h: "a < 2 ^ 53"
  proof -
    have "digitsValue (toString (int a)) < 2 ^ 53" using na h by simp
    then show ?thesis using parseTimeSlots_one [of "toString (int a)"] na by simp
  qed
  ultimately show ?thesis
    using parseTimeSlots_range [of d1 d2] parseTimeSlots_one [of d1] parseTimeSlots_no_match [of s]
    by blast
qed

theorem parseTimeSlots_spec_witness:
  "\<not> containsPeriodText [49, 50] \<and> parseTimeSlots [49, 50] = Inr []
   \<and> [48, 57] \<noteq> [] \<and> list_all isDigit [48, 57] \<and> [49, 48] \<noteq> [] \<and> list_all isDigit [49, 48]
   \<and> digitsValue [48, 57] = 9 \<and> digitsValue [49, 48] = 10
   \<and> parseTimeSlots [31532, 48, 57, 45, 49, 48, 33410] = Inr [[57], [49, 48]]
   \<and> parseTimeSlots [31532, 48, 57, 33410] = Inr [[57]]
   \<and> parseTimeSlots [31532, 51, 45, 53, 33410] = Inr [[51], [52], [53]]
   \<and> parseTimeSlots [31532, 51, 33410] = Inr [[51]]"
proof -
  have n: "\<not> containsPeriodText [49, 50]"
    using containsPeriodText_has_marker [of "[49, 50]"] by auto
  have d: "[48, 57] \<noteq> [] \<and> list_all isDigit [48, 57] \<and> [49, 48] \<noteq> [] \<and> list_all isDigit [49, 48]"
    by (simp add: isDigit_def)
  have v: "digitsValue [48, 57] = 9" "digitsValue [49, 48] = 10"
    by (simp_all add: digitsValue_def)
  have t: "map toString [9 .. 10] = [[57], [49, 48]]" "toString 9 = [57]"
      "map toString [3 .. 5] = [[51], [52], [53]]" "toString 3 = [51]" "toString 5 = [53]"
    by (simp_all add: upto_rec1 toString_def digitsOf_small digitsOf.simps [of 10])
  note s = parseTimeSlots_spec [of 3 5 "[48, 57]" "[49, 48]" "[49, 50]"]
  have "parseTimeSlots [49, 50] = Inr []" using s n by blast
  moreover have "parseTimeSlots ([31532] @ [48, 57] @ [45] @ [49, 48] @ [33410])
          = Inr (map toString [digitsValue [48, 57] .. digitsValue [49, 48]])"
    using s d v by simp
  moreover have "parseTimeSlots ([31532] @ [48, 57] @ [33410]) = Inr [toString (digitsValue [48, 57])]"
    using s d v by simp
  moreover have "parseTimeSlots ([31532] @ toString (int 3) @ [45] @ toString (int 5) @ [33410])
        = Inr (map toString [int 3 .. int 5])"
    using s by simp
  moreover have "parseTimeSlots ([31532] @ toString (int 3) @ [33410]) = Inr [toString (int 3)]"
    using s by simp
  ultimately show ?thesis using n d t v by simp
qed

lemma trim_id:
  assumes "s \<noteq> []" "\<not> isWhiteSpace (hd s)" "\<not> isWhiteSpace (last s)"
  shows "trim s = s"
proof -
  have a: "dropWhile isWhiteSpace s = s"
    using assms(1,2) by (cases s) auto
  obtain x xs where r: "rev s = x # xs" using assms(1) by (cases "rev s") auto
  then have "x = last s" using assms(1) by (metis hd_rev list.sel(1))
  then have b: "dropWhile isWhiteSpace (rev s) = rev s"
    using assms(3) unfolding r by simp
  show ?thesis by (simp add: trim_def a b)
qed

lemma matchDigits_None: "s = [] \<or> \<not> isDigit (hd s) \<Longrightarrow> matchDigits s = None"
  by (cases s) (auto simp: matchDigits_def)

lemma matchWeekPrefix_None: "s = [] \<or> \<not> isDigit (hd s) \<Longrightarrow> matchWeekPrefix s = None"
  by (simp add: matchWeekPrefix_def matchWeek_def matchDigits_None)

lemma searchFrom_matchLocation_None: "40 \<notin> set s \<Longrightarrow> searchFrom matchLocation s = None"
  by (induction s) (auto simp: matchLocation_def matchChar_def)

lemma searchFrom_matchPeriod_skip:
  assumes "31532 \<notin> set pre"
  shows "searchFrom matchPeriod (pre @ s)
           = map_option (\<lambda>(p, r). (pre @ p, r)) (searchFrom matchPeriod s)"
  using assms
proof (induction pre)
  case Nil
  show ?case by (simp add: option.map_ident case_prod_eta)
next
  case (Cons c pre)
  then have "matchPeriod (c # pre @ s) = None"
    by (simp add: matchPeriod_def matchChar_def)
  then show ?case using Cons
    by (simp add: option.map_comp comp_def case_prod_beta)
qed


lemma slotsLoop_none: "en < i \<Longrightarrow> slotsLoop slots i en = Inr slots"
  by (subst slotsLoop.simps) simp

lemma slotOfMatch_empty:
  "parseTimeSlots fullMatch = Inr [] \<Longrightarrow> slotOfMatch wk loc fullMatch = Inr []"
  by (simp add: slotOfMatch_def split: option.splits prod.splits)

lemma slotOfMatch_ids:
  "slotOfMatch wk loc fullMatch = Inr ss \<Longrightarrow> slot \<in> set ss \<Longrightarrow>
     (\<exists>ids. parseTimeSlots fullMatch = Inr ids \<and> timeSlotIds slot = Some ids \<and> ids \<noteq> [])
     \<and> weeks slot = (case wk of Some w \<Rightarrow> Some [w] | None \<Rightarrow> None) \<and> location slot = loc"
  by (auto simp: slotOfMatch_def split: option.splits prod.splits if_splits sum.splits)

lemma slotsOfMatches_ids:
  "slotsOfMatches wk loc ms = Inr ss \<Longrightarrow> slot \<in> set ss \<Longrightarrow>
     (\<exists>ids. timeSlotIds slot = Some ids \<and> ids \<noteq> [])
     \<and> weeks slot = (case wk of Some w \<Rightarrow> Some [w] | None \<Rightarrow> None) \<and> location slot = loc"
proof (induction ms arbitrary: ss)
  case Nil
  then show ?case by simp
next
  case (Cons m ms)
  obtain new later where n: "slotOfMatch wk loc m = Inr new" "slotsOfMatches wk loc ms = Inr later"
      "ss = new @ later"
    using Cons.prems(1) by (auto split: sum.splits)
  then consider "slot \<in> set new" | "slot \<in> set later" using Cons.prems(2) by auto
  then show ?case
  proof cases
    case 1
    from slotOfMatch_ids [OF n(1) 1] show ?thesis by blast
  next
    case 2
    from Cons.IH [OF n(2) 2] show ?thesis .
  qed
qed

lemma reversed_line:
  assumes ba: "b < a" and a: "a < 2 ^ 53"
    and tok: "tok = [26143, 26399, d] \<or> tok = [21608, d]" and d: "isDayChar d"
  shows "parseTimeLine (tok @ [31532] @ toString (int a) @ [45] @ toString (int b) @ [33410])
           = Inr \<lparr>line_weeks = None, line_timeSlots = [], line_location = None\<rparr>"
proof -
  let ?da = "toString (int a)" and ?db = "toString (int b)"
  let ?P = "[31532] @ ?da @ [45] @ ?db @ [33410]"
  let ?line = "tok @ ?P"
  note na = toString_nat_digits [of a] and nb = toString_nat_digits [of b]
  have tokne: "tok \<noteq> []" and hdtok: "hd tok = 26143 \<or> hd tok = 21608"
    using tok by auto
  have lne: "?line \<noteq> []" using tokne by simp
  have hd: "hd ?line = hd tok" using tokne by simp
  have last: "last ?line = 33410" by simp
  have nws: "\<not> isWhiteSpace (hd ?line)" "\<not> isWhiteSpace (last ?line)"
    unfolding hd last using hdtok by (auto simp: isWhiteSpace_def)
  have trim: "trim ?line = ?line" using lne nws by (rule trim_id)
  have "\<not> isDigit (hd ?line)" unfolding hd using hdtok by (auto simp: isDigit_def)
  then have wk: "matchWeekPrefix ?line = None" by (simp add: matchWeekPrefix_None)
  have digs: "\<forall>c\<in>set ?da \<union> set ?db. isDigit c" using na nb by (auto simp: list_all_iff)
  have "\<not> isDigit 40" by (simp add: isDigit_def)
  then have "40 \<notin> set ?da \<union> set ?db" using digs by blast
  moreover have "40 \<notin> set tok" using tok d by (auto simp: isDayChar_def)
  ultimately have "40 \<notin> set ?line" by simp
  then have loc: "parseLocation ?line = None"
    by (simp add: parseLocation_def searchFrom_matchLocation_None del: append.simps)
  have mp: "matchPeriod (31532 # ?da @ 45 # ?db @ 33410 # []) = Some ((?da, Some ?db), [])"
    using na nb by (intro matchPeriod_range) auto
  have "31532 \<notin> set tok" using tok d by (auto simp: isDayChar_def)
  then have "searchFrom matchPeriod ?line
      = map_option (\<lambda>(p, r). (tok @ p, r)) (searchFrom matchPeriod ?P)"
    by (rule searchFrom_matchPeriod_skip)
  then have sp: "searchFrom matchPeriod ?line = Some (tok, ((?da, Some ?db), []))"
    using mp by simp
  have "digitsValue ?da \<le> 2 ^ 53" "digitsValue ?db \<le> 2 ^ 53" using na nb ba a by simp_all
  then have pi: "parseInt ?da = int a" "parseInt ?db = int b"
    using na nb by (simp_all add: parseInt_exact)
  have ids: "parseTimeSlots ?line = Inr []"
    using sp pi ba by (simp add: parseTimeSlots_def slotsLoop_none del: append.simps)
  have md: "matchDay ?line = Some (tok, ?P)"
    using tok d by (auto simp: matchDay_def matchChar_def matchClass_def orElse_def)
  have mt: "matchTime ?line = Some (?line, [])"
    using md mp by (simp add: matchTime_def isWhiteSpace_def del: append.simps) simp
  obtain c cs where ccs: "?line = c # cs" using lne by (cases ?line) auto
  have "matchAllTime ?line = [?line]"
    unfolding ccs using mt unfolding ccs
    by (simp del: append.simps)
  then show ?thesis
    using trim wk loc ids
    by (simp add: parseTimeLine_def Let_def truthyString_def slotOfMatch_empty del: append.simps)
qed

lemmas parser_eval = parseTimeLine_def trim_def parseWeekRange_def parseLocation_def
  removeLocation_def slotOfMatch_def parseDay_def DAY_MAP_def parseTimeSlots_def parseInt_def
  numberValue_small digitsValue_def truthyString_def matchChar_def matchClass_def matchDigits_def
  orElse_def matchPeriod_def matchWeek_def matchWeekPrefix_def matchLocation_def isDayChar_def
  matchDay_def matchTime_def isDigit_def isWhiteSpace_def slotsLoop_nil_small upto_rec1
  toString_small Let_def

lemma parseTimeLine_shared:
  assumes "parseTimeLine line = Inr res" "slot \<in> set (line_timeSlots res)"
  shows "weeks slot = (case line_weeks res of Some w \<Rightarrow> Some [w] | None \<Rightarrow> None)
       \<and> location slot = line_location res
       \<and> (\<exists>ids. timeSlotIds slot = Some ids \<and> ids \<noteq> [])"
proof -
  obtain wk loc ms where pl: "parseTimeLine line =
      (case slotsOfMatches wk loc ms of
         Inl e \<Rightarrow> Inl e
       | Inr slots \<Rightarrow> Inr \<lparr>line_weeks = wk, line_timeSlots = slots, line_location = loc\<rparr>)"
    by (simp add: parseTimeLine_def Let_def)
  then obtain ss where ss: "slotsOfMatches wk loc ms = Inr ss"
      "res = \<lparr>line_weeks = wk, line_timeSlots = ss, line_location = loc\<rparr>"
    using assms(1) by (auto split: sum.splits)
  have "slot \<in> set ss" using assms(2) ss(2) by simp
  from slotsOfMatches_ids [OF ss(1) this] show ?thesis using ss(2) by simp
qed

text \<open>
  Claim C8. The example line of the specification, given here by its code units (the week
  prefix \<open>1-6\<close> with the week character and a full-width comma, the weekday 1 with the periods
  \<open>5-6\<close>, the weekday 3 with the periods \<open>5-6\<close>, and the location in parentheses), parses
  to exactly two fixed time slots, on day 1 and on day 3, both with the period ids \<open>5\<close> and
  \<open>6\<close>, the weeks \<open>[{1,6}]\<close> and the location of the line. For every line, each slot the
  line parser emits carries the line's week range (as a list of one range, or nothing when
  the line has no week prefix) and the line's location.
\<close>

theorem parseTimeLine_example:
  "parseTimeLine [49, 45, 54, 21608, 65292, 26143, 26399, 19968, 31532, 53, 45, 54, 33410, 32,
                  26143, 26399, 19977, 31532, 53, 45, 54, 33410, 32,
                  40, 31435, 20154, 27004, 66, 52, 49, 49, 41]
     = Inr \<lparr>line_weeks = Some \<lparr>start = 1, end' = 6\<rparr>,
        line_timeSlots =
          [\<lparr>dayOfWeek = 1, timeSlotIds = Some [[53], [54]], weeks = Some [\<lparr>start = 1, end' = 6\<rparr>],
            location = Some [31435, 20154, 27004, 66, 52, 49, 49]\<rparr>,
           \<lparr>dayOfWeek = 3, timeSlotIds = Some [[53], [54]], weeks = Some [\<lparr>start = 1, end' = 6\<rparr>],
            location = Some [31435, 20154, 27004, 66, 52, 49, 49]\<rparr>],
        line_location = Some [31435, 20154, 27004, 66, 52, 49, 49]\<rparr>
   \<and> (\<forall>res. parseTimeLine line = Inr res \<longrightarrow>
        (\<forall>slot\<in>set (line_timeSlots res).
           weeks slot = (case line_weeks res of Some w \<Rightarrow> Some [w] | None \<Rightarrow> None)
         \<and> location slot = line_location res))"
proof
  show "parseTimeLine [49, 45, 54, 21608, 65292, 26143, 26399, 19968, 31532, 53, 45, 54, 33410, 32,
                  26143, 26399, 19977, 31532, 53, 45, 54, 33410, 32,
                  40, 31435, 20154, 27004, 66, 52, 49, 49, 41]
     = Inr \<lparr>line_weeks = Some \<lparr>start = 1, end' = 6\<rparr>,
        line_timeSlots =
          [\<lparr>dayOfWeek = 1, timeSlotIds = Some [[53], [54]], weeks = Some [\<lparr>start = 1, end' = 6\<rparr>],
            location = Some [31435, 20154, 27004, 66, 52, 49, 49]\<rparr>,
           \<lparr>dayOfWeek = 3, timeSlotIds = Some [[53], [54]], weeks = Some [\<lparr>start = 1, end' = 6\<rparr>],
            location = Some [31435, 20154, 27004, 66, 52, 49, 49]\<rparr>],
        line_location = Some [31435, 20154, 27004, 66, 52, 49, 49]\<rparr>"
    by (simp add: parser_eval)
  show "\<forall>res. parseTimeLine line = Inr res \<longrightarrow>
        (\<forall>slot\<in>set (line_timeSlots res).
           weeks slot = (case line_weeks res of Some w \<Rightarrow> Some [w] | None \<Rightarrow> None)
         \<and> location slot = line_location res)"
    using parseTimeLine_shared by blast
qed

theorem parseTimeLine_example_witness:
  "parseTimeLine [55, 21608, 44, 21608, 20116, 31532, 51, 33410, 40, 66, 41]
     = Inr \<lparr>line_weeks = Some \<lparr>start = 7, end' = 7\<rparr>,
            line_timeSlots = [\<lparr>dayOfWeek = 5, timeSlotIds = Some [[51]],
                               weeks = Some [\<lparr>start = 7, end' = 7\<rparr>], location = Some [66]\<rparr>],
            line_location = Some [66]\<rparr>
   \<and> list_all (\<lambda>slot. weeks slot = Some [\<lparr>start = 7, end' = 7\<rparr>] \<and> location slot = Some [66])
        [\<lparr>dayOfWeek = 5, timeSlotIds = Some [[51]],
          weeks = Some [\<lparr>start = 7, end' = 7\<rparr>], location = Some [66]\<rparr>]"
proof -
  let ?l = "[55, 21608, 44, 21608, 20116, 31532, 51, 33410, 40, 66, 41]"
  let ?res = "\<lparr>line_weeks = Some \<lparr>start = 7, end' = 7\<rparr>,
            line_timeSlots = [\<lparr>dayOfWeek = 5, timeSlotIds = Some [[51]],
                               weeks = Some [\<lparr>start = 7, end' = 7\<rparr>], location = Some [66]\<rparr>],
            line_location = Some [66]\<rparr>"
  have e: "parseTimeLine ?l = Inr ?res"
    by (simp add: parser_eval)
  have "\<forall>slot\<in>set (line_timeSlots ?res).
        weeks slot = (case line_weeks ?res of Some w \<Rightarrow> Some [w] | None \<Rightarrow> None)
      \<and> location slot = line_location ?res"
    using parseTimeLine_example [of ?l] e by blast
  then show ?thesis using e by (simp add: list_all_iff)
qed

text \<open>
  Claim C9, as stated: for every reversed period range \<open>parseTimeSlots\<close> returns the empty
  list and does not throw. The numbers of the source are doubles: in the text 31532,
  \<open>9007199254740993\<close>, \<open>-\<close>, \<open>9007199254740992\<close>, 33410 the first number is the larger one, but
  \<open>parseInt\<close> reads it as \<open>9007199254740992 = 2^53\<close>, the nearest double. So the start equals the
  end, the loop runs, \<open>i++\<close> leaves \<open>i\<close> unchanged, and the call ends in a \<open>RangeError\<close>.
\<close>

theorem reversed_period_rounded:
  "parseTimeSlots [31532, 57, 48, 48, 55, 49, 57, 57, 50, 53, 52, 55, 52, 48, 57, 57, 51, 45,
                   57, 48, 48, 55, 49, 57, 57, 50, 53, 52, 55, 52, 48, 57, 57, 50, 33410]
     = Inl RangeError"
proof -
  let ?d1 = "[57, 48, 48, 55, 49, 57, 57, 50, 53, 52, 55, 52, 48, 57, 57, 51] :: jstring"
  let ?d2 = "[57, 48, 48, 55, 49, 57, 57, 50, 53, 52, 55, 52, 48, 57, 57, 50] :: jstring"
  have d: "?d1 \<noteq> []" "list_all isDigit ?d1" "?d2 \<noteq> []" "list_all isDigit ?d2"
    by (simp_all add: isDigit_def)
  have v: "digitsValue ?d1 = 9007199254740993" "digitsValue ?d2 = 9007199254740992"
    by (simp_all add: digitsValue_def)
  have p1: "parseInt ?d1 = 9007199254740992"
    unfolding parseInt_digits [OF d(2)] v using numberValue_first_gap by simp
  have p2: "parseInt ?d2 = 9007199254740992" using d v by (simp add: parseInt_exact)
  have "slotsLoop [] 9007199254740992 9007199254740992 = Inl RangeError"
    using roundNumber_first_gap by (intro slotsLoop_stall) simp_all
  then show ?thesis
    using parseTimeSlots_loop_range [OF d] unfolding p1 p2 by simp
qed

text \<open>
  Claim C9, amended. For every reversed period range with numbers below \<open>2^53\<close> (the text
  31532, \<open>a\<close>, \<open>-\<close>, \<open>b\<close>, 33410 with \<open>b < a < 2^53\<close>) \<open>parseTimeSlots\<close> returns the empty list
  and raises nothing. An occurrence whose period list is empty yields no slot in the line
  parser: a line made of a weekday token and such a reversed range parses to a result
  without time slots, every slot of every parsed line has a non-empty list of period ids,
  and in a line with a reversed range on day 1 and a proper range on day 3 only the slot of
  day 3 is emitted.
\<close>

theorem reversed_period_skipped:
  "(b < a \<and> a < 2 ^ 53 \<longrightarrow>
      parseTimeSlots ([31532] @ toString (int a) @ [45] @ toString (int b) @ [33410]) = Inr [])
   \<and> (parseTimeSlots fullMatch = Inr [] \<longrightarrow> slotOfMatch wk loc fullMatch = Inr [])
   \<and> (b < a \<and> a < 2 ^ 53 \<and> isDayChar d \<longrightarrow>
        parseTimeLine
          ([26143, 26399, d] @ [31532] @ toString (int a) @ [45] @ toString (int b) @ [33410])
          = Inr \<lparr>line_weeks = None, line_timeSlots = [], line_location = None\<rparr>
      \<and> parseTimeLine
          ([21608, d] @ [31532] @ toString (int a) @ [45] @ toString (int b) @ [33410])
          = Inr \<lparr>line_weeks = None, line_timeSlots = [], line_location = None\<rparr>)
   \<and> (\<forall>res. parseTimeLine line = Inr res \<longrightarrow>
        (\<forall>slot\<in>set (line_timeSlots res). \<exists>ids. timeSlotIds slot = Some ids \<and> ids \<noteq> []))
   \<and> parseTimeSlots [31532, 54, 45, 53, 33410] = Inr []
   \<and> parseTimeLine [26143, 26399, 19968, 31532, 54, 45, 53, 33410, 32,
                    26143, 26399, 19977, 31532, 53, 45, 54, 33410]
       = Inr \<lparr>line_weeks = None,
              line_timeSlots = [\<lparr>dayOfWeek = 3, timeSlotIds = Some [[53], [54]],
                                 weeks = None, location = None\<rparr>],
              line_location = None\<rparr>"
proof (intro conjI impI)
  assume h: "b < a \<and> a < 2 ^ 53"
  note na = toString_nat_digits [of a] and nb = toString_nat_digits [of b]
  have "digitsValue (toString (int a)) \<le> 2 ^ 53" "digitsValue (toString (int b)) \<le> 2 ^ 53"
    using na nb h by simp_all
  then have p: "parseInt (toString (int a)) = int a" "parseInt (toString (int b)) = int b"
    using na nb by (simp_all add: parseInt_exact)
  have "slotsLoop [] (int a) (int b) = Inr []" using h by (intro slotsLoop_none) simp
  then show "parseTimeSlots ([31532] @ toString (int a) @ [45] @ toString (int b) @ [33410]) = Inr []"
    using parseTimeSlots_loop_range [of "toString (int a)" "toString (int b)"] na nb
    unfolding p by simp
next
  assume "parseTimeSlots fullMatch = Inr []"
  then show "slotOfMatch wk loc fullMatch = Inr []" by (rule slotOfMatch_empty)
next
  assume h: "b < a \<and> a < 2 ^ 53 \<and> isDayChar d"
  show "parseTimeLine
          ([26143, 26399, d] @ [31532] @ toString (int a) @ [45] @ toString (int b) @ [33410])
          = Inr \<lparr>line_weeks = None, line_timeSlots = [], line_location = None\<rparr>"
    using h by (intro reversed_line) auto
next
  assume h: "b < a \<and> a < 2 ^ 53 \<and> isDayChar d"
  show "parseTimeLine
          ([21608, d] @ [31532] @ toString (int a) @ [45] @ toString (int b) @ [33410])
          = Inr \<lparr>line_weeks = None, line_timeSlots = [], line_location = None\<rparr>"
    using h by (intro reversed_line) auto
next
  show "\<forall>res. parseTimeLine line = Inr res \<longrightarrow>
        (\<forall>slot\<in>set (line_timeSlots res). \<exists>ids. timeSlotIds slot = Some ids \<and> ids \<noteq> [])"
    using parseTimeLine_shared by blast
next
  show "parseTimeSlots [31532, 54, 45, 53, 33410] = Inr []"
    by (simp add: parser_eval slotsLoop_none)
next
  show "parseTimeLine [26143, 26399, 19968, 31532, 54, 45, 53, 33410, 32,
                    26143, 26399, 19977, 31532, 53, 45, 54, 33410]
       = Inr \<lparr>line_weeks = None,
              line_timeSlots = [\<lparr>dayOfWeek = 3, timeSlotIds = Some [[53], [54]],
                                 weeks = None, location = None\<rparr>],
              line_location = None\<rparr>"
    by (simp add: parser_eval slotsLoop_none)
qed

theorem reversed_period_skipped_witness:
  "(5::nat) < 6 \<and> (6::nat) < 2 ^ 53 \<and> isDayChar 19968
   \<and> parseTimeSlots [31532, 54, 45, 53, 33410] = Inr []
   \<and> slotOfMatch None None [31532, 54, 45, 53, 33410] = Inr []
   \<and> parseTimeLine [26143, 26399, 19968, 31532, 54, 45, 53, 33410]
       = Inr \<lparr>line_weeks = None, line_timeSlots = [], line_location = None\<rparr>
   \<and> parseTimeLine [21608, 19977, 31532, 53, 45, 54, 33410]
       = Inr \<lparr>line_weeks = None,
              line_timeSlots = [\<lparr>dayOfWeek = 3, timeSlotIds = Some [[53], [54]],
                                 weeks = None, location = None\<rparr>],
              line_location = None\<rparr>
   \<and> list_all (\<lambda>slot. \<exists>ids. timeSlotIds slot = Some ids \<and> ids \<noteq> [])
        [\<lparr>dayOfWeek = 3, timeSlotIds = Some [[53], [54]], weeks = None, location = None\<rparr>]"
proof -
  let ?l = "[21608, 19977, 31532, 53, 45, 54, 33410]"
  let ?res = "\<lparr>line_weeks = None,
              line_timeSlots = [\<lparr>dayOfWeek = 3, timeSlotIds = Some [[53], [54]],
                                 weeks = None, location = None\<rparr>],
              line_location = None\<rparr>"
  have h: "(5::nat) < 6 \<and> (6::nat) < 2 ^ 53" "isDayChar 19968" by (simp_all add: isDayChar_def)
  have t: "toString (int 6) = [54]" "toString (int 5) = [53]" by (simp_all add: toString_small)
  have e: "parseTimeLine ?l = Inr ?res" by (simp add: parser_eval)
  note r = reversed_period_skipped [of 5 6 "[31532, 54, 45, 53, 33410]" None None 19968 ?l]
  have a: "parseTimeSlots ([31532] @ toString (int 6) @ [45] @ toString (int 5) @ [33410]) = Inr []"
    using r h by blast
  have b: "slotOfMatch None None [31532, 54, 45, 53, 33410] = Inr []"
    using r a unfolding t by simp
  have c: "parseTimeLine
          ([26143, 26399, 19968] @ [31532] @ toString (int 6) @ [45] @ toString (int 5) @ [33410])
          = Inr \<lparr>line_weeks = None, line_timeSlots = [], line_location = None\<rparr>"
    using r h by blast
  have f: "\<forall>slot\<in>set (line_timeSlots ?res). \<exists>ids. timeSlotIds slot = Some ids \<and> ids \<noteq> []"
    using r e by blast
  show ?thesis using h a b c e f unfolding t by (simp add: list_all_iff)
qed

section \<open>Properties of the deduplication\<close>

lemma foldWeeks_Nil: "foldWeeks s [] = s"
  by (simp add: foldWeeks_def)

lemma foldWeeks_Cons:
  "foldWeeks (s\<lparr>weeks := combineWeeks (weeks s) (weeks x)\<rparr>) rest = foldWeeks s (x # rest)"
  by (simp add: foldWeeks_def)

lemma map_fst_update_new: "k \<notin> fst ` set m \<Longrightarrow> map fst (AList.update k v m) = map fst m @ [k]"
  by (induction m) auto

lemma map_fst_update_old: "k \<in> fst ` set m \<Longrightarrow> map fst (AList.update k v m) = map fst m"
  by (induction m) auto

lemma dedupLoop_result:
  assumes "\<forall>s\<in>set xs. slotKey s \<noteq> None"
  shows "\<exists>m'. dedupLoop m xs = Inr m'
     \<and> map fst m' = map fst m
          @ filter (\<lambda>k. k \<notin> fst ` set m) (firstOcc (map (\<lambda>s. the (slotKey s)) xs))
     \<and> (\<forall>k. map_of m' k =
          (case map_of m k of
             Some e \<Rightarrow> Some (foldWeeks e (filter (\<lambda>s. slotKey s = Some k) xs))
           | None \<Rightarrow>
               (case filter (\<lambda>s. slotKey s = Some k) xs of
                  [] \<Rightarrow> None
                | s # rest \<Rightarrow> Some (foldWeeks s rest))))"
  using assms
proof (induction xs arbitrary: m)
  case Nil
  show ?case by (auto simp: foldWeeks_Nil split: option.splits)
next
  case (Cons x xs)
  obtain key where key: "slotKey x = Some key" using Cons.prems by auto
  have rest: "\<forall>s\<in>set xs. slotKey s \<noteq> None" using Cons.prems by simp
  show ?case
  proof (cases "map_of m key")
    case None
    let ?m1 = "AList.update key x m"
    have nk: "key \<notin> fst ` set m" using None by (simp add: map_of_eq_None_iff)
    have step: "dedupLoop m (x # xs) = dedupLoop ?m1 xs"
      using key None by simp
    obtain m' where ih: "dedupLoop ?m1 xs = Inr m'"
        "map fst m' = map fst ?m1
          @ filter (\<lambda>k. k \<notin> fst ` set ?m1) (firstOcc (map (\<lambda>s. the (slotKey s)) xs))"
        "\<And>k. map_of m' k =
          (case map_of ?m1 k of
             Some e \<Rightarrow> Some (foldWeeks e (filter (\<lambda>s. slotKey s = Some k) xs))
           | None \<Rightarrow>
               (case filter (\<lambda>s. slotKey s = Some k) xs of
                  [] \<Rightarrow> None
                | s # rest \<Rightarrow> Some (foldWeeks s rest)))"
      using Cons.IH [OF rest, of ?m1] by blast
    have keys1: "map fst ?m1 = map fst m @ [key]" using nk by (rule map_fst_update_new)
    have set1: "fst ` set ?m1 = insert key (fst ` set m)"
      using keys1 by (metis (no_types) list.set_map set_append list.simps(15) Un_insert_right
          sup_bot.right_neutral empty_set)
    have a: "map fst m' = map fst m
          @ filter (\<lambda>k. k \<notin> fst ` set m) (firstOcc (map (\<lambda>s. the (slotKey s)) (x # xs)))"
      unfolding ih(2) keys1 set1 using nk key by (simp add: conj_commute)
    have b: "map_of m' k =
          (case map_of m k of
             Some e \<Rightarrow> Some (foldWeeks e (filter (\<lambda>s. slotKey s = Some k) (x # xs)))
           | None \<Rightarrow>
               (case filter (\<lambda>s. slotKey s = Some k) (x # xs) of
                  [] \<Rightarrow> None
                | s # rest \<Rightarrow> Some (foldWeeks s rest)))" for k
    proof (cases "k = key")
      case True
      have fx: "filter (\<lambda>s. slotKey s = Some k) (x # xs) = x # filter (\<lambda>s. slotKey s = Some k) xs"
        using True key by simp
      show ?thesis unfolding ih(3) fx using True None by (simp add: update_conv')
    next
      case False
      have fx: "filter (\<lambda>s. slotKey s = Some k) (x # xs) = filter (\<lambda>s. slotKey s = Some k) xs"
        using False key by simp
      show ?thesis unfolding ih(3) fx using False by (simp add: update_conv')
    qed
    show ?thesis unfolding step using ih(1) a b by blast
  next
    case (Some e)
    let ?e1 = "e\<lparr>weeks := combineWeeks (weeks e) (weeks x)\<rparr>"
    let ?m1 = "AList.update key ?e1 m"
    have ik: "key \<in> fst ` set m" using Some map_of_eq_None_iff [of m key] by auto
    have step: "dedupLoop m (x # xs) = dedupLoop ?m1 xs"
      using key Some by simp
    obtain m' where ih: "dedupLoop ?m1 xs = Inr m'"
        "map fst m' = map fst ?m1
          @ filter (\<lambda>k. k \<notin> fst ` set ?m1) (firstOcc (map (\<lambda>s. the (slotKey s)) xs))"
        "\<And>k. map_of m' k =
          (case map_of ?m1 k of
             Some e \<Rightarrow> Some (foldWeeks e (filter (\<lambda>s. slotKey s = Some k) xs))
           | None \<Rightarrow>
               (case filter (\<lambda>s. slotKey s = Some k) xs of
                  [] \<Rightarrow> None
                | s # rest \<Rightarrow> Some (foldWeeks s rest)))"
      using Cons.IH [OF rest, of ?m1] by blast
    have keys1: "map fst ?m1 = map fst m" using ik by (rule map_fst_update_old)
    have set1: "fst ` set ?m1 = fst ` set m"
      using keys1 by (metis list.set_map)
    have f: "filter (\<lambda>k. k \<noteq> key \<and> k \<notin> fst ` set m) ys
           = filter (\<lambda>k. k \<notin> fst ` set m) ys" for ys
      using ik by (induction ys) auto
    have a: "map fst m' = map fst m
          @ filter (\<lambda>k. k \<notin> fst ` set m) (firstOcc (map (\<lambda>s. the (slotKey s)) (x # xs)))"
      unfolding ih(2) keys1 set1 using ik key by (simp add: f)
    have b: "map_of m' k =
          (case map_of m k of
             Some e \<Rightarrow> Some (foldWeeks e (filter (\<lambda>s. slotKey s = Some k) (x # xs)))
           | None \<Rightarrow>
               (case filter (\<lambda>s. slotKey s = Some k) (x # xs) of
                  [] \<Rightarrow> None
                | s # rest \<Rightarrow> Some (foldWeeks s rest)))" for k
    proof (cases "k = key")
      case True
      have fx: "filter (\<lambda>s. slotKey s = Some k) (x # xs) = x # filter (\<lambda>s. slotKey s = Some k) xs"
        using True key by simp
      show ?thesis unfolding ih(3) fx using True Some by (simp add: update_conv' foldWeeks_Cons)
    next
      case False
      have fx: "filter (\<lambda>s. slotKey s = Some k) (x # xs) = filter (\<lambda>s. slotKey s = Some k) xs"
        using False key by simp
      show ?thesis unfolding ih(3) fx using False by (simp add: update_conv')
    qed
    show ?thesis unfolding step using ih(1) a b by blast
  qed
qed

lemma set_firstOcc: "set (firstOcc xs) = set xs"
  by (induction xs) auto

lemma distinct_firstOcc: "distinct (firstOcc xs)"
  by (induction xs) (auto simp: set_firstOcc)

lemma firstOcc_map_inj: "inj f \<Longrightarrow> firstOcc (map f xs) = map f (firstOcc xs)"
proof (induction xs)
  case Nil
  show ?case by simp
next
  case (Cons x xs)
  have "filter (\<lambda>y. y \<noteq> f x) (map f ys) = map f (filter (\<lambda>y. y \<noteq> x) ys)" for ys
    using Cons.prems by (induction ys) (auto dest: injD)
  then show ?case using Cons by simp
qed

lemma slotKey_weeks_update: "slotKey (s\<lparr>weeks := w\<rparr>) = slotKey s"
  by (cases "timeSlotIds s") (simp_all add: slotKey_def)

lemma slotKey_None_iff: "slotKey s = None \<longleftrightarrow> timeSlotIds s = None"
  by (simp add: slotKey_def split: option.splits)

lemma foldl_combineWeeks_None:
  "\<forall>w\<in>set ws. w = None \<Longrightarrow> foldl combineWeeks e ws = e"
  by (induction ws arbitrary: e) (auto simp: combineWeeks_def)

lemma mergeWeekRanges_ne:
  assumes "xs \<noteq> []" "\<forall>r\<in>set xs. start r \<le> end' r"
  shows "mergeWeekRanges xs \<noteq> []"
proof -
  obtain r where r: "r \<in> set xs" using assms(1) by (meson last_in_set)
  then have "start r \<in> weeksOf xs" using assms(2) by (auto simp: weeksOf_def)
  then have "weeksOf (mergeWeekRanges xs) \<noteq> {}"
    using mergeWeekRanges_props(1) [OF assms(2)] by auto
  then show ?thesis by (auto simp: weeksOf_def)
qed

lemma foldl_combineWeeks_valid:
  assumes "ew \<noteq> []" "\<forall>r\<in>set ew. start r \<le> end' r"
    and "\<forall>w\<in>set ws. \<exists>l. w = Some l \<and> l \<noteq> [] \<and> (\<forall>r\<in>set l. start r \<le> end' r)"
  shows "\<exists>l. foldl combineWeeks (Some ew) ws = Some l \<and> l \<noteq> []
           \<and> (\<forall>r\<in>set l. start r \<le> end' r)
           \<and> weeksOf l = weeksOf ew \<union> (\<Union>w\<in>set ws. weeksOfOption w)
           \<and> (ws \<noteq> [] \<or> sorted_wrt gap ew \<longrightarrow> sorted_wrt gap l)"
  using assms
proof (induction ws arbitrary: ew)
  case Nil
  then show ?case by simp
next
  case (Cons w ws)
  obtain nw where nw: "w = Some nw" "nw \<noteq> []" "\<forall>r\<in>set nw. start r \<le> end' r"
    using Cons.prems(3) by auto
  let ?m = "mergeWeekRanges (ew @ nw)"
  have v: "\<forall>r\<in>set (ew @ nw). start r \<le> end' r" using Cons.prems(2) nw(3) by auto
  note p = mergeWeekRanges_props [OF v]
  have ne: "?m \<noteq> []" using Cons.prems(1) v by (intro mergeWeekRanges_ne) auto
  have cw: "combineWeeks (Some ew) w = Some ?m"
    using nw Cons.prems(1) by (simp add: combineWeeks_def)
  have rest: "\<forall>w\<in>set ws. \<exists>l. w = Some l \<and> l \<noteq> [] \<and> (\<forall>r\<in>set l. start r \<le> end' r)"
    using Cons.prems(3) by simp
  obtain l where l: "foldl combineWeeks (Some ?m) ws = Some l" "l \<noteq> []"
      "\<forall>r\<in>set l. start r \<le> end' r"
      "weeksOf l = weeksOf ?m \<union> (\<Union>w\<in>set ws. weeksOfOption w)"
      "ws \<noteq> [] \<or> sorted_wrt gap ?m \<longrightarrow> sorted_wrt gap l"
    using Cons.IH [OF ne p(3) rest] by blast
  have "weeksOf l = weeksOf ew \<union> (\<Union>w\<in>set (w # ws). weeksOfOption w)"
    unfolding l(4) p(1) using nw(1) by (auto simp: weeksOf_append weeksOfOption_def)
  moreover have "sorted_wrt gap l" using l(5) p(2) by simp
  ultimately show ?case using l(1,2,3) cw by simp
qed

lemma dedup_group_weeks:
  assumes u: "u = s\<lparr>weeks := foldl combineWeeks (weeks s) (map weeks rest)\<rparr>"
  shows "(\<forall>x\<in>set (s # rest). weeks x = None) \<longrightarrow> weeks u = None"
    and "rest \<noteq> [] \<and> (\<forall>x\<in>set (s # rest). hasValidWeeks x) \<longrightarrow>
          (\<exists>l. weeks u = Some l
               \<and> weeksOf l = (\<Union>x\<in>set (s # rest). weeksOfOption (weeks x))
               \<and> sorted_wrt gap l)"
proof -
  show "(\<forall>x\<in>set (s # rest). weeks x = None) \<longrightarrow> weeks u = None"
  proof
    assume a: "\<forall>x\<in>set (s # rest). weeks x = None"
    then have "foldl combineWeeks (weeks s) (map weeks rest) = weeks s"
      by (intro foldl_combineWeeks_None) auto
    then show "weeks u = None" using a u by simp
  qed
  show "rest \<noteq> [] \<and> (\<forall>x\<in>set (s # rest). hasValidWeeks x) \<longrightarrow>
          (\<exists>l. weeks u = Some l
               \<and> weeksOf l = (\<Union>x\<in>set (s # rest). weeksOfOption (weeks x))
               \<and> sorted_wrt gap l)"
  proof
    assume a: "rest \<noteq> [] \<and> (\<forall>x\<in>set (s # rest). hasValidWeeks x)"
    then obtain ew where ew: "weeks s = Some ew" "ew \<noteq> []" "\<forall>r\<in>set ew. start r \<le> end' r"
      by (cases "weeks s") (auto simp: hasValidWeeks_def list_all_iff)
    have ws: "\<forall>w\<in>set (map weeks rest). \<exists>l. w = Some l \<and> l \<noteq> [] \<and> (\<forall>r\<in>set l. start r \<le> end' r)"
    proof
      fix w assume "w \<in> set (map weeks rest)"
      then obtain x where x: "x \<in> set rest" "w = weeks x" by auto
      then have "hasValidWeeks x" using a by simp
      then show "\<exists>l. w = Some l \<and> l \<noteq> [] \<and> (\<forall>r\<in>set l. start r \<le> end' r)"
        unfolding x(2) by (cases "weeks x") (auto simp: hasValidWeeks_def list_all_iff)
    qed
    obtain l where l: "foldl combineWeeks (Some ew) (map weeks rest) = Some l"
        "weeksOf l = weeksOf ew \<union> (\<Union>w\<in>set (map weeks rest). weeksOfOption w)"
        "map weeks rest \<noteq> [] \<or> sorted_wrt gap ew \<longrightarrow> sorted_wrt gap l"
      using foldl_combineWeeks_valid [OF ew(2,3) ws] by blast
    have "weeks u = Some l" using u ew(1) l(1) by simp
    moreover have "weeksOf l = (\<Union>x\<in>set (s # rest). weeksOfOption (weeks x))"
      unfolding l(2) using ew(1) by (simp add: weeksOfOption_def)
    moreover have "sorted_wrt gap l" using l(3) a by simp
    ultimately show "\<exists>l. weeks u = Some l
               \<and> weeksOf l = (\<Union>x\<in>set (s # rest). weeksOfOption (weeks x))
               \<and> sorted_wrt gap l" by blast
  qed
qed

lemma deduplicate_result:
  assumes "\<forall>s\<in>set xs. timeSlotIds s \<noteq> None"
  shows "\<exists>out. deduplicateTimeSlots xs = Inr out
       \<and> map slotKey out = firstOcc (map slotKey xs)
       \<and> (\<forall>u\<in>set out. \<exists>s rest.
             filter (\<lambda>x. slotKey x = slotKey u) xs = s # rest
           \<and> u = s\<lparr>weeks := foldl combineWeeks (weeks s) (map weeks rest)\<rparr>)"
proof -
  have keys: "\<forall>s\<in>set xs. slotKey s \<noteq> None"
    using assms by (simp add: slotKey_None_iff)
  obtain m where m: "dedupLoop [] xs = Inr m"
      "map fst m = firstOcc (map (\<lambda>s. the (slotKey s)) xs)"
      "\<And>k. map_of m k =
          (case filter (\<lambda>s. slotKey s = Some k) xs of
             [] \<Rightarrow> None
           | s # rest \<Rightarrow> Some (foldWeeks s rest))"
    using dedupLoop_result [OF keys, of "[]"] by auto
  have dk: "distinct (map fst m)" unfolding m(2) by (rule distinct_firstOcc)
  have entry: "\<exists>s rest. filter (\<lambda>x. slotKey x = Some k) xs = s # rest \<and> u = foldWeeks s rest
                 \<and> slotKey u = Some k"
    if "(k, u) \<in> set m" for k u
  proof -
    have "map_of m k = Some u" using dk that by simp
    then obtain s rest where sr: "filter (\<lambda>x. slotKey x = Some k) xs = s # rest" "u = foldWeeks s rest"
      unfolding m(3) by (auto split: list.splits)
    have "s \<in> set (filter (\<lambda>x. slotKey x = Some k) xs)" unfolding sr(1) by simp
    then have "slotKey s = Some k" by simp
    then have "slotKey u = Some k" unfolding sr(2) foldWeeks_def by (simp add: slotKey_weeks_update)
    then show ?thesis using sr by blast
  qed
  have out: "deduplicateTimeSlots xs = Inr (map snd m)"
    using m(1) by (simp add: deduplicateTimeSlots_def)
  have "map slotKey (map snd m) = map (\<lambda>p. Some (fst p)) m"
  proof (rule map_ext [THEN trans [OF map_map]], rule impI)
    fix p assume "p \<in> set m"
    then have "(fst p, snd p) \<in> set m" by simp
    from entry [OF this] show "(slotKey \<circ> snd) p = Some (fst p)" by auto
  qed
  also have "\<dots> = map Some (firstOcc (map (\<lambda>s. the (slotKey s)) xs))"
    unfolding m(2) [symmetric] by simp
  also have "\<dots> = firstOcc (map Some (map (\<lambda>s. the (slotKey s)) xs))"
    by (rule firstOcc_map_inj [symmetric]) simp
  also have "map Some (map (\<lambda>s. the (slotKey s)) xs) = map slotKey xs"
    using keys by (induction xs) auto
  finally have k: "map slotKey (map snd m) = firstOcc (map slotKey xs)" .
  have g: "\<forall>u\<in>set (map snd m). \<exists>s rest.
             filter (\<lambda>x. slotKey x = slotKey u) xs = s # rest
           \<and> u = s\<lparr>weeks := foldl combineWeeks (weeks s) (map weeks rest)\<rparr>"
  proof
    fix u assume "u \<in> set (map snd m)"
    then obtain k where "(k, u) \<in> set m" by auto
    from entry [OF this] show "\<exists>s rest.
             filter (\<lambda>x. slotKey x = slotKey u) xs = s # rest
           \<and> u = s\<lparr>weeks := foldl combineWeeks (weeks s) (map weeks rest)\<rparr>"
      unfolding foldWeeks_def by auto
  qed
  show ?thesis using out k g by blast
qed

lemmas dedup_eval = deduplicateTimeSlots_def slotKey_def combineWeeks_def mergeWeekRanges_def
  toString_small

text \<open>
  Claim C3, as stated: slots are grouped by the day, the sorted and joined period ids and the
  location. The code joins the period ids in the order in which the slot lists them: two
  slots on day 1 without location, one with the periods \<open>5, 6\<close> and one with \<open>6, 5\<close>, have
  the same sorted period ids, yet both are returned.
\<close>

theorem deduplicateTimeSlots_unsorted_key:
  "deduplicateTimeSlots
     [\<lparr>dayOfWeek = 1, timeSlotIds = Some [[53], [54]], weeks = None, location = None\<rparr>,
      \<lparr>dayOfWeek = 1, timeSlotIds = Some [[54], [53]], weeks = None, location = None\<rparr>]
   = Inr [\<lparr>dayOfWeek = 1, timeSlotIds = Some [[53], [54]], weeks = None, location = None\<rparr>,
          \<lparr>dayOfWeek = 1, timeSlotIds = Some [[54], [53]], weeks = None, location = None\<rparr>]"
  by (simp add: dedup_eval)

text \<open>
  Claim C3, amended. For every list of slots that all have a list of period ids,
  \<open>deduplicateTimeSlots\<close> groups the slots by the key text made of the day, the period ids
  joined in their given order, and the location or the empty text. It returns one slot for
  every distinct key, in the order of first occurrence: the first slot of the key with its
  weeks replaced by the result of going through the further slots of the key in order, where
  a slot with a non-empty week list replaces absent or empty weeks and is otherwise appended
  and passed through the week-range merge, and a slot without weeks changes nothing. So a
  key whose slots all lack weeks keeps weeks undefined, and a key with several slots that
  all have well-formed week lists gets ranges that denote the union of their weeks and are
  separated by at least one week. Two slots equal in day, period ids and location with the
  weeks 1 to 6 and 7 to 8 collapse to one slot with the weeks \<open>[{1,8}]\<close>.
\<close>

theorem deduplicateTimeSlots_groups:
  assumes "\<forall>s\<in>set xs. timeSlotIds s \<noteq> None"
  shows "(\<exists>out. deduplicateTimeSlots xs = Inr out
       \<and> map slotKey out = firstOcc (map slotKey xs)
       \<and> (\<forall>u\<in>set out. \<exists>s rest.
             filter (\<lambda>x. slotKey x = slotKey u) xs = s # rest
           \<and> u = s\<lparr>weeks := foldl combineWeeks (weeks s) (map weeks rest)\<rparr>
           \<and> ((\<forall>x\<in>set (s # rest). weeks x = None) \<longrightarrow> weeks u = None)
           \<and> (rest \<noteq> [] \<and> (\<forall>x\<in>set (s # rest). hasValidWeeks x) \<longrightarrow>
                (\<exists>l. weeks u = Some l
                   \<and> weeksOf l = (\<Union>x\<in>set (s # rest). weeksOfOption (weeks x))
                   \<and> sorted_wrt gap l))))
   \<and> deduplicateTimeSlots
        [\<lparr>dayOfWeek = d, timeSlotIds = Some ids, weeks = Some [\<lparr>start = 1, end' = 6\<rparr>], location = loc\<rparr>,
         \<lparr>dayOfWeek = d, timeSlotIds = Some ids, weeks = Some [\<lparr>start = 7, end' = 8\<rparr>], location = loc\<rparr>]
      = Inr [\<lparr>dayOfWeek = d, timeSlotIds = Some ids, weeks = Some [\<lparr>start = 1, end' = 8\<rparr>],
              location = loc\<rparr>]"
proof
  obtain out where out: "deduplicateTimeSlots xs = Inr out"
      "map slotKey out = firstOcc (map slotKey xs)"
      "\<forall>u\<in>set out. \<exists>s rest.
             filter (\<lambda>x. slotKey x = slotKey u) xs = s # rest
           \<and> u = s\<lparr>weeks := foldl combineWeeks (weeks s) (map weeks rest)\<rparr>"
    using deduplicate_result [OF assms] by blast
  have "\<forall>u\<in>set out. \<exists>s rest.
             filter (\<lambda>x. slotKey x = slotKey u) xs = s # rest
           \<and> u = s\<lparr>weeks := foldl combineWeeks (weeks s) (map weeks rest)\<rparr>
           \<and> ((\<forall>x\<in>set (s # rest). weeks x = None) \<longrightarrow> weeks u = None)
           \<and> (rest \<noteq> [] \<and> (\<forall>x\<in>set (s # rest). hasValidWeeks x) \<longrightarrow>
                (\<exists>l. weeks u = Some l
                   \<and> weeksOf l = (\<Union>x\<in>set (s # rest). weeksOfOption (weeks x))
                   \<and> sorted_wrt gap l))"
  proof
    fix u assume "u \<in> set out"
    then obtain s rest where sr: "filter (\<lambda>x. slotKey x = slotKey u) xs = s # rest"
        "u = s\<lparr>weeks := foldl combineWeeks (weeks s) (map weeks rest)\<rparr>"
      using out(3) by blast
    show "\<exists>s rest.
             filter (\<lambda>x. slotKey x = slotKey u) xs = s # rest
           \<and> u = s\<lparr>weeks := foldl combineWeeks (weeks s) (map weeks rest)\<rparr>
           \<and> ((\<forall>x\<in>set (s # rest). weeks x = None) \<longrightarrow> weeks u = None)
           \<and> (rest \<noteq> [] \<and> (\<forall>x\<in>set (s # rest). hasValidWeeks x) \<longrightarrow>
                (\<exists>l. weeks u = Some l
                   \<and> weeksOf l = (\<Union>x\<in>set (s # rest). weeksOfOption (weeks x))
                   \<and> sorted_wrt gap l))"
      using sr dedup_group_weeks [OF sr(2)] by blast
  qed
  then show "\<exists>out. deduplicateTimeSlots xs = Inr out
       \<and> map slotKey out = firstOcc (map slotKey xs)
       \<and> (\<forall>u\<in>set out. \<exists>s rest.
             filter (\<lambda>x. slotKey x = slotKey u) xs = s # rest
           \<and> u = s\<lparr>weeks := foldl combineWeeks (weeks s) (map weeks rest)\<rparr>
           \<and> ((\<forall>x\<in>set (s # rest). weeks x = None) \<longrightarrow> weeks u = None)
           \<and> (rest \<noteq> [] \<and> (\<forall>x\<in>set (s # rest). hasValidWeeks x) \<longrightarrow>
                (\<exists>l. weeks u = Some l
                   \<and> weeksOf l = (\<Union>x\<in>set (s # rest). weeksOfOption (weeks x))
                   \<and> sorted_wrt gap l)))"
    using out(1,2) by blast
  show "deduplicateTimeSlots
        [\<lparr>dayOfWeek = d, timeSlotIds = Some ids, weeks = Some [\<lparr>start = 1, end' = 6\<rparr>], location = loc\<rparr>,
         \<lparr>dayOfWeek = d, timeSlotIds = Some ids, weeks = Some [\<lparr>start = 7, end' = 8\<rparr>], location = loc\<rparr>]
      = Inr [\<lparr>dayOfWeek = d, timeSlotIds = Some ids, weeks = Some [\<lparr>start = 1, end' = 8\<rparr>],
              location = loc\<rparr>]"
    by (simp add: deduplicateTimeSlots_def slotKey_def combineWeeks_def mergeWeekRanges_def)
qed

theorem deduplicateTimeSlots_groups_witness:
  "list_all (\<lambda>s. timeSlotIds s \<noteq> None)
     [\<lparr>dayOfWeek = 1, timeSlotIds = Some [[53]], weeks = None, location = None\<rparr>,
      \<lparr>dayOfWeek = 2, timeSlotIds = Some [[53]], weeks = None, location = None\<rparr>,
      \<lparr>dayOfWeek = 1, timeSlotIds = Some [[53]], weeks = None, location = None\<rparr>]
   \<and> (\<exists>out. deduplicateTimeSlots
        [\<lparr>dayOfWeek = 1, timeSlotIds = Some [[53]], weeks = None, location = None\<rparr>,
         \<lparr>dayOfWeek = 2, timeSlotIds = Some [[53]], weeks = None, location = None\<rparr>,
         \<lparr>dayOfWeek = 1, timeSlotIds = Some [[53]], weeks = None, location = None\<rparr>] = Inr out
       \<and> map slotKey out = [Some [49, 45, 53, 45], Some [50, 45, 53, 45]])"
proof -
  let ?xs = "[\<lparr>dayOfWeek = 1, timeSlotIds = Some [[53]], weeks = None, location = None\<rparr>,
      \<lparr>dayOfWeek = 2, timeSlotIds = Some [[53]], weeks = None, location = None\<rparr>,
      \<lparr>dayOfWeek = 1, timeSlotIds = Some [[53]], weeks = None, location = None\<rparr>]"
  have h: "\<forall>s\<in>set ?xs. timeSlotIds s \<noteq> None" by simp
  have k: "firstOcc (map slotKey ?xs) = [Some [49, 45, 53, 45], Some [50, 45, 53, 45]]"
    by (simp add: slotKey_def toString_small)
  obtain out where "deduplicateTimeSlots ?xs = Inr out"
      "map slotKey out = firstOcc (map slotKey ?xs)"
    using deduplicateTimeSlots_groups [OF h] by blast
  then show ?thesis unfolding k by simp
qed

end
